theory Spec2Isabelle
  imports Main "HOL-Library.Word"
begin

unbundle bit_operations_syntax

section \<open>Machine types and failures\<close>

text \<open>
  The C code works on \<open>uint8_t\<close>, \<open>uint16_t\<close>, \<open>uint32_t\<close> and \<open>uint64_t\<close>; these are
  words, so that every addition, multiplication and shift wraps as in C. \<open>size_t\<close> values
  that only ever hold the number of slots are natural numbers: a slot table with
  \<open>2 ^ 64\<close> slots cannot be allocated, and allocation itself (\<open>calloc\<close>, \<open>malloc\<close>,
  \<open>realloc\<close> of a nonzero size) is taken to succeed. The host is little-endian and
  \<open>int\<close> has 32 bits.

  Everything that ends the process or leaves defined behaviour is a value of
  \<open>error\<close>: \<open>Abort\<close> is a failed \<open>ENSURE\<close>, \<open>OutOfBounds\<close> is an access outside the
  allocated array, \<open>ShiftOverflow\<close> is \<open>1 << e\<close> with \<open>e\<close> beyond the width of \<open>int\<close>.
\<close>

type_synonym u8 = "8 word"
type_synonym u16 = "16 word"
type_synonym u32 = "32 word"
type_synonym u64 = "64 word"

datatype error = Abort | OutOfBounds | ShiftOverflow

section \<open>bithacks.h\<close>

definition ceil_pow2 :: "u64 \<Rightarrow> u64" where
  "ceil_pow2 x0 =
    (let x = x0 - 1;
         x = x OR drop_bit 1 x;
         x = x OR drop_bit 2 x;
         x = x OR drop_bit 4 x;
         x = x OR drop_bit 8 x;
         x = x OR drop_bit 16 x
     in x + 1)"

text \<open>\<open>1 << e\<close>, computed in \<open>int\<close>, as both constructors of a table do.\<close>

definition shift_one :: "u64 \<Rightarrow> error + nat" where
  "shift_one e = (if unat e < 31 then Inr (2 ^ unat e) else Inl ShiftOverflow)"

section \<open>Hash selectors\<close>

text \<open>Byte \<open>j\<close> of the key in memory, as \<open>*s++\<close> reads it, widened to 32 bits.\<close>

definition key_byte :: "u64 \<Rightarrow> nat \<Rightarrow> u32" where
  "key_byte key j = ucast (ucast (drop_bit (8 * j) key) :: u8)"

definition larsons_hash :: "u64 \<Rightarrow> u16" where
  "larsons_hash key =
    (let M = 101;
         h = 0xdeadbeef;
         h = h * M + key_byte key 0;
         h = h * M + key_byte key 1;
         h = h * M + key_byte key 2;
         h = h * M + key_byte key 3;
         h = h * M + key_byte key 4;
         h = h * M + key_byte key 5;
         h = h * M + key_byte key 6
     in ucast (h XOR drop_bit 16 h))"

definition hash_1 :: "nat \<Rightarrow> u64 \<Rightarrow> u16" where
  "hash_1 n key =
    ucast (push_bit 1 ((ucast (larsons_hash key) :: u64) AND (of_nat (n div 2) - 1)))"

text \<open>The build without SSE4.2: Bob Jenkins's \<open>hashword\<close>.\<close>

definition rot :: "u32 \<Rightarrow> nat \<Rightarrow> u32" where
  "rot x k = push_bit k x OR drop_bit (32 - k) x"

definition mix :: "u32 \<Rightarrow> u32 \<Rightarrow> u32 \<Rightarrow> u32 \<times> u32 \<times> u32" where
  "mix a b c =
    (let a = a - c; a = a XOR rot c 4; c = c + b;
         b = b - a; b = b XOR rot a 6; a = a + c;
         c = c - b; c = c XOR rot b 8; b = b + a;
         a = a - c; a = a XOR rot c 16; c = c + b;
         b = b - a; b = b XOR rot a 19; a = a + c;
         c = c - b; c = c XOR rot b 4; b = b + a
     in (a, b, c))"

definition final :: "u32 \<Rightarrow> u32 \<Rightarrow> u32 \<Rightarrow> u32 \<times> u32 \<times> u32" where
  "final a b c =
    (let c = c XOR b; c = c - rot b 14;
         a = a XOR c; a = a - rot c 11;
         b = b XOR a; b = b - rot a 25;
         c = c XOR b; c = c - rot b 16;
         a = a XOR c; a = a - rot c 4;
         b = b XOR a; b = b - rot a 14;
         c = c XOR b; c = c - rot b 24
     in (a, b, c))"

text \<open>The \<open>for\<close> loop of \<open>hashword\<close>: three words at a time while more than three are left.\<close>

fun hashword_loop :: "u32 list \<Rightarrow> u32 \<times> u32 \<times> u32 \<Rightarrow> u32 list \<times> u32 \<times> u32 \<times> u32" where
  "hashword_loop (k0 # k1 # k2 # k3 # ks) (a, b, c) =
     hashword_loop (k3 # ks) (mix (a + k0) (b + k1) (c + k2))"
| "hashword_loop ks abc = (ks, abc)"

definition hashword :: "u32 list \<Rightarrow> u32 \<Rightarrow> u32" where
  "hashword k initval =
    (let a0 = 0xdeadbeef + push_bit 2 (of_nat (length k)) + initval
     in case hashword_loop k (a0, a0, a0) of (ks, a, b, c) \<Rightarrow>
       (case ks of
          [k0, k1, k2] \<Rightarrow> snd (snd (final (a + k0) (b + k1) (c + k2)))
        | [k0, k1] \<Rightarrow> snd (snd (final (a + k0) (b + k1) c))
        | [k0] \<Rightarrow> snd (snd (final (a + k0) b c))
        | _ \<Rightarrow> c))"

definition hash_2 :: "nat \<Rightarrow> u64 \<Rightarrow> u16" where
  "hash_2 n key =
    (let h = hashword [ucast key, ucast (drop_bit 32 key)] 0x55555555;
         h = h XOR drop_bit 16 h
     in ucast (1 + push_bit 1 ((ucast h :: u64) AND (of_nat (n div 2) - 1))))"

section \<open>The table\<close>

text \<open>
  An entry is the pair (key, value). \<open>entries\<close> holds the cells \<open>0 ..< n_entries\<close> of
  the entry array; \<open>entries_len\<close> is the number of cells allocated. Cell 0 is never
  written by the program: \<open>small_cuckoo_new\<close> takes what \<open>malloc\<close> left there as its
  first argument.
\<close>

type_synonym entry = "u64 \<times> u64"

record small_cuckoo =
  table_size :: nat
  table :: "u16 list"
  n_entries :: u16
  entries_len :: u16
  entries :: "entry list"

type_synonym 'a outcome = "(error + 'a) option"

definition small_cuckoo_new :: "entry \<Rightarrow> u64 \<Rightarrow> error + small_cuckoo" where
  "small_cuckoo_new e0 initial_size =
    (case shift_one (ceil_pow2 initial_size + 1) of
       Inl e \<Rightarrow> Inl e
     | Inr ts \<Rightarrow>
         Inr \<lparr>table_size = ts, table = replicate ts 0, n_entries = 1,
              entries_len = ucast (1 + initial_size), entries = [e0]\<rparr>)"

definition MAX_LOOPS :: nat where
  "MAX_LOOPS = 20"

text \<open>
  The macro \<open>X(fn)\<close> of \<open>insert\<close>: hash the key of entry \<open>i\<close>, exchange \<open>i\<close> with the
  slot by three exclusive-ors. The result is the table and the index now in hand.
\<close>

definition X :: "(nat \<Rightarrow> u64 \<Rightarrow> u16) \<Rightarrow> small_cuckoo \<Rightarrow> u16 \<Rightarrow> error + small_cuckoo \<times> u16" where
  "X fn sc i =
    (if unat i < length (entries sc) then
       (let h = unat (fn (table_size sc) (fst (entries sc ! unat i)))
        in if h < length (table sc) then
             (let i1 = i XOR table sc ! h;
                  t1 = (table sc)[h := table sc ! h XOR i1];
                  i2 = i1 XOR t1 ! h
              in Inr (sc\<lparr>table := t1\<rparr>, i2))
           else Inl OutOfBounds)
     else Inl OutOfBounds)"

datatype placement = Returned small_cuckoo | Exhausted small_cuckoo u16

text \<open>The \<open>for\<close> loop of \<open>insert\<close>; \<open>Exhausted\<close> is falling out of it after \<open>n\<close> rounds.\<close>

fun insert_loop :: "nat \<Rightarrow> small_cuckoo \<Rightarrow> u16 \<Rightarrow> error + placement" where
  "insert_loop 0 sc i = Inr (Exhausted sc i)"
| "insert_loop (Suc n) sc i =
    (case X hash_1 sc i of
       Inl e \<Rightarrow> Inl e
     | Inr (sc1, i1) \<Rightarrow>
         if i1 = 0 then Inr (Returned sc1)
         else (case X hash_2 sc1 i1 of
                 Inl e \<Rightarrow> Inl e
               | Inr (sc2, i2) \<Rightarrow>
                   if i2 = 0 then Inr (Returned sc2) else insert_loop n sc2 i2))"

text \<open>
  The loop of \<open>double_size\<close> over the previous table. Its bound \<open>sc->table_size>>1\<close> is
  read from the table at every iteration, and \<open>ins\<close> may have doubled the table again;
  \<open>prev_table\<close> has only the slots it was allocated with.
\<close>

function double_size_loop ::
  "(small_cuckoo \<Rightarrow> u16 \<Rightarrow> small_cuckoo outcome) \<Rightarrow> u16 list \<Rightarrow> nat \<Rightarrow> small_cuckoo
     \<Rightarrow> small_cuckoo outcome" where
  "double_size_loop ins prev_table i sc =
    (if i < table_size sc div 2 then
       (if i < length prev_table then
          (if prev_table ! i \<noteq> 0 then
             (case ins sc (prev_table ! i) of
                None \<Rightarrow> None
              | Some (Inl e) \<Rightarrow> Some (Inl e)
              | Some (Inr sc') \<Rightarrow> double_size_loop ins prev_table (i + 1) sc')
           else double_size_loop ins prev_table (i + 1) sc)
        else Some (Inl OutOfBounds))
     else Some (Inr sc))"
  by pat_completeness auto
termination
  by (relation "measure (\<lambda>(ins, prev_table, i, sc). length prev_table - i)") auto

declare double_size_loop.simps [simp del]

definition double_size ::
  "(small_cuckoo \<Rightarrow> u16 \<Rightarrow> small_cuckoo outcome) \<Rightarrow> small_cuckoo \<Rightarrow> small_cuckoo outcome" where
  "double_size ins sc =
    (let prev_table = table sc;
         sc1 = sc\<lparr>table_size := 2 * table_size sc\<rparr>;
         sc2 = sc1\<lparr>table := replicate (table_size sc1) 0\<rparr>
     in double_size_loop ins prev_table 0 sc2)"

text \<open>
  \<open>insert\<close> calls itself after \<open>double_size\<close>, and \<open>double_size\<close> calls \<open>insert\<close>; nothing
  bounds the depth. The first argument is the depth allowed: \<open>None\<close> is "still running".
\<close>

primrec insert_index :: "nat \<Rightarrow> small_cuckoo \<Rightarrow> u16 \<Rightarrow> small_cuckoo outcome" where
  "insert_index 0 sc i = None"
| "insert_index (Suc fuel) sc i =
    (case insert_loop MAX_LOOPS sc i of
       Inl e \<Rightarrow> Some (Inl e)
     | Inr (Returned sc1) \<Rightarrow> Some (Inr sc1)
     | Inr (Exhausted sc1 i1) \<Rightarrow>
         (case double_size (insert_index fuel) sc1 of
            None \<Rightarrow> None
          | Some (Inl e) \<Rightarrow> Some (Inl e)
          | Some (Inr sc2) \<Rightarrow> insert_index fuel sc2 i1))"

text \<open>
  Writing cell \<open>i\<close> of the entry array. In a table built by the operations below
  \<open>i\<close> is the number of cells held so far, and the write adds the cell.
\<close>

definition store_entry :: "entry list \<Rightarrow> nat \<Rightarrow> entry \<Rightarrow> error + entry list" where
  "store_entry es i e =
    (if i < length es then Inr (es[i := e])
     else if i = length es then Inr (es @ [e])
     else Inl OutOfBounds)"

definition small_cuckoo_insert ::
  "nat \<Rightarrow> small_cuckoo \<Rightarrow> u64 \<Rightarrow> u64 \<Rightarrow> small_cuckoo outcome" where
  "small_cuckoo_insert fuel sc key val =
    (let i = n_entries sc
     in if \<not> 0 < i then Some (Inl Abort)
        else
          (let sc1 = sc\<lparr>n_entries := n_entries sc + 1\<rparr>;
               grow = (entries_len sc1 \<le> n_entries sc1);
               sc2 = (if grow then sc1\<lparr>entries_len := push_bit 1 (entries_len sc1)\<rparr> else sc1)
           in if grow \<and> entries_len sc2 = 0 then Some (Inl Abort)
              else if \<not> unat i < unat (entries_len sc2) then Some (Inl OutOfBounds)
              else (case store_entry (entries sc2) (unat i) (key, val) of
                      Inl e \<Rightarrow> Some (Inl e)
                    | Inr es \<Rightarrow> insert_index fuel (sc2\<lparr>entries := es\<rparr>) i)))"

text \<open>The macro \<open>X(h)\<close> of \<open>small_cuckoo_find\<close>: \<open>Some v\<close> is \<open>return true\<close> with the value.\<close>

definition find_X :: "small_cuckoo \<Rightarrow> nat \<Rightarrow> u64 \<Rightarrow> error + u64 option" where
  "find_X sc h key =
    (if h < length (table sc) then
       (let i = table sc ! h
        in if i = 0 then Inr None
           else if unat i < length (entries sc) then
             (if fst (entries sc ! unat i) = key then Inr (Some (snd (entries sc ! unat i)))
              else Inr None)
           else Inl OutOfBounds)
     else Inl OutOfBounds)"

definition small_cuckoo_find :: "small_cuckoo \<Rightarrow> u64 \<Rightarrow> error + u64 option" where
  "small_cuckoo_find sc key =
    (case find_X sc (unat (hash_1 (table_size sc) key)) key of
       Inl e \<Rightarrow> Inl e
     | Inr (Some v) \<Rightarrow> Inr (Some v)
     | Inr None \<Rightarrow> find_X sc (unat (hash_2 (table_size sc) key)) key)"

text \<open>A client's loop of insertions, every one with the same depth allowance.\<close>

fun insert_all :: "nat \<Rightarrow> small_cuckoo \<Rightarrow> entry list \<Rightarrow> small_cuckoo outcome" where
  "insert_all fuel sc [] = Some (Inr sc)"
| "insert_all fuel sc (kv # kvs) =
    (case small_cuckoo_insert fuel sc (fst kv) (snd kv) of
       None \<Rightarrow> None
     | Some (Inl e) \<Rightarrow> Some (Inl e)
     | Some (Inr sc') \<Rightarrow> insert_all fuel sc' kvs)"

section \<open>Codec\<close>

text \<open>
  The stream is a list of bytes; \<open>write\<close> and \<open>read\<close> transfer what they are asked to, or
  the stream is too short and \<open>ENSURE\<close> aborts.

  \<open>WRITE_UNDER(t, x, n)\<close> declares \<open>uint32_t u = t(x)\<close> and writes \<open>n\<close> bytes from the
  address of \<open>u\<close>. For \<open>n = 8\<close> the last four bytes are whatever follows \<open>u\<close> in memory:
  the argument \<open>after\<close>. \<open>READ_AND(then, v, n)\<close> reads \<open>n\<close> bytes to the address of a
  \<open>uint32_t u\<close> and assigns \<open>then(u)\<close>: bytes 4 to 7 land behind \<open>u\<close> and are not part of
  the value.
\<close>

definition le_bytes :: "nat \<Rightarrow> u32 \<Rightarrow> u8 list" where
  "le_bytes n u = map (\<lambda>j. ucast (drop_bit (8 * j) u)) [0..<n]"

definition of_le_bytes :: "u8 list \<Rightarrow> u32" where
  "of_le_bytes bs = foldr (\<lambda>b acc. ucast b OR push_bit 8 acc) bs 0"

definition WRITE_UNDER :: "u32 \<Rightarrow> u64 \<Rightarrow> nat \<Rightarrow> u8 list" where
  "WRITE_UNDER after x n = take n (le_bytes 4 (ucast x) @ le_bytes 4 after)"

text \<open>\<open>stack w\<close> is what follows \<open>u\<close> in memory at the \<open>w\<close>-th write.\<close>

definition small_cuckoo_serialize :: "(nat \<Rightarrow> u32) \<Rightarrow> small_cuckoo \<Rightarrow> error + u8 list" where
  "small_cuckoo_serialize stack sc =
    (if unat (n_entries sc) \<le> length (entries sc) then
       Inr (WRITE_UNDER (stack 0) (ucast (n_entries sc)) 2 @
            concat (map (\<lambda>i. WRITE_UNDER (stack (2 * i + 1)) (fst (entries sc ! i)) 8 @
                              WRITE_UNDER (stack (2 * i + 2)) (snd (entries sc ! i)) 8)
                        [0..<unat (n_entries sc)]))
     else Inl OutOfBounds)"

definition READ_AND :: "nat \<Rightarrow> u8 list \<Rightarrow> error + u32 \<times> u8 list" where
  "READ_AND n fd =
    (if length fd < n then Inl Abort
     else Inr (of_le_bytes (take (min n 4) fd), drop n fd))"

fun read_entries :: "nat \<Rightarrow> u8 list \<Rightarrow> error + entry list \<times> u8 list" where
  "read_entries 0 fd = Inr ([], fd)"
| "read_entries (Suc n) fd =
    (case READ_AND 8 fd of
       Inl e \<Rightarrow> Inl e
     | Inr (k, fd1) \<Rightarrow>
         (case READ_AND 8 fd1 of
            Inl e \<Rightarrow> Inl e
          | Inr (v, fd2) \<Rightarrow>
              (case read_entries n fd2 of
                 Inl e \<Rightarrow> Inl e
               | Inr (es, fd3) \<Rightarrow> Inr ((ucast k, ucast v) # es, fd3))))"

text \<open>
  \<open>small_cuckoo_deserialize\<close> up to its last loop. The slot table comes from \<open>malloc\<close>:
  \<open>heap j\<close> is what the allocator left in cell \<open>j\<close>.
\<close>

definition deserialize_read :: "(nat \<Rightarrow> u16) \<Rightarrow> u8 list \<Rightarrow> error + small_cuckoo" where
  "deserialize_read heap fd =
    (case READ_AND 2 fd of
       Inl e \<Rightarrow> Inl e
     | Inr (u, fd1) \<Rightarrow>
         (let n = (ucast u :: u16)
          in case shift_one (ceil_pow2 (ucast n) + 1) of
               Inl e \<Rightarrow> Inl e
             | Inr ts \<Rightarrow>
                 (case read_entries (unat n) fd1 of
                    Inl e \<Rightarrow> Inl e
                  | Inr (es, fd2) \<Rightarrow>
                      Inr \<lparr>table_size = ts, table = map heap [0..<ts], n_entries = n,
                           entries_len = 0, entries = es\<rparr>)))"

fun reinsert_loop :: "nat \<Rightarrow> small_cuckoo \<Rightarrow> u16 list \<Rightarrow> small_cuckoo outcome" where
  "reinsert_loop fuel sc [] = Some (Inr sc)"
| "reinsert_loop fuel sc (i # is) =
    (case insert_index fuel sc i of
       None \<Rightarrow> None
     | Some (Inl e) \<Rightarrow> Some (Inl e)
     | Some (Inr sc') \<Rightarrow> reinsert_loop fuel sc' is)"

definition small_cuckoo_deserialize ::
  "nat \<Rightarrow> (nat \<Rightarrow> u16) \<Rightarrow> u8 list \<Rightarrow> small_cuckoo outcome" where
  "small_cuckoo_deserialize fuel heap fd =
    (case deserialize_read heap fd of
       Inl e \<Rightarrow> Some (Inl e)
     | Inr sc \<Rightarrow> reinsert_loop fuel sc (map of_nat [0..<unat (n_entries sc)]))"

section \<open>Iterator\<close>

record small_cuckoo_iter =
  iter_sc :: small_cuckoo
  iter_i :: u16

definition small_cuckoo_iterate :: "small_cuckoo \<Rightarrow> small_cuckoo_iter" where
  "small_cuckoo_iterate sc = \<lparr>iter_sc = sc, iter_i = 0\<rparr>"

text \<open>
  The cursor is a \<open>uint16_t\<close> compared with the \<open>size_t\<close> table size; \<open>++iter->i\<close> wraps.
  Neither loop need terminate, so both are partial functions: \<open>None\<close> is "never returns".
\<close>

partial_function (option) small_cuckoo_iter_has_next ::
  "small_cuckoo_iter \<Rightarrow> (error + bool \<times> small_cuckoo_iter) option" where
  "small_cuckoo_iter_has_next iter =
    (if unat (iter_i iter) < table_size (iter_sc iter) then
       (if unat (iter_i iter) < length (table (iter_sc iter)) then
          (if table (iter_sc iter) ! unat (iter_i iter) \<noteq> 0 then Some (Inr (True, iter))
           else small_cuckoo_iter_has_next (iter\<lparr>iter_i := iter_i iter + 1\<rparr>))
        else Some (Inl OutOfBounds))
     else Some (Inr (False, iter)))"

partial_function (option) small_cuckoo_iter_next ::
  "small_cuckoo_iter \<Rightarrow> (error + entry \<times> small_cuckoo_iter) option" where
  "small_cuckoo_iter_next iter =
    (if unat (iter_i iter) < table_size (iter_sc iter) then
       (if unat (iter_i iter) < length (table (iter_sc iter)) then
          (let j = table (iter_sc iter) ! unat (iter_i iter)
           in if j \<noteq> 0 then
                (if unat j < length (entries (iter_sc iter)) then
                   Some (Inr (entries (iter_sc iter) ! unat j, iter\<lparr>iter_i := iter_i iter + 1\<rparr>))
                 else Some (Inl OutOfBounds))
              else small_cuckoo_iter_next (iter\<lparr>iter_i := iter_i iter + 1\<rparr>))
        else Some (Inl OutOfBounds))
     else Some (Inl Abort))"

text \<open>
  A client's loop \<open>while (has_next) next\<close>, for at most \<open>fuel\<close> pairs: the pairs in the
  order they come, or \<open>None\<close> when the iterator is not exhausted by then.
\<close>

fun iter_collect :: "nat \<Rightarrow> small_cuckoo_iter \<Rightarrow> (error + entry list) option" where
  "iter_collect 0 iter = None"
| "iter_collect (Suc fuel) iter =
    (case small_cuckoo_iter_has_next iter of
       None \<Rightarrow> None
     | Some (Inl e) \<Rightarrow> Some (Inl e)
     | Some (Inr (False, iter1)) \<Rightarrow> Some (Inr [])
     | Some (Inr (True, iter1)) \<Rightarrow>
         (case small_cuckoo_iter_next iter1 of
            None \<Rightarrow> None
          | Some (Inl e) \<Rightarrow> Some (Inl e)
          | Some (Inr (kv, iter2)) \<Rightarrow>
              (case iter_collect fuel iter2 of
                 None \<Rightarrow> None
               | Some (Inl e) \<Rightarrow> Some (Inl e)
               | Some (Inr kvs) \<Rightarrow> Some (Inr (kv # kvs)))))"

section \<open>Invariants\<close>

text \<open>The hash selector whose parity is that of slot \<open>s\<close>.\<close>

definition hash_for :: "nat \<Rightarrow> nat \<Rightarrow> u64 \<Rightarrow> u16" where
  "hash_for s = (if even s then hash_1 else hash_2)"

text \<open>
  Slot \<open>s\<close> is empty, or it holds the index of a stored entry whose key the selector of
  that parity sends to \<open>s\<close>.
\<close>

definition slot_ok :: "small_cuckoo \<Rightarrow> nat \<Rightarrow> bool" where
  "slot_ok sc s \<longleftrightarrow>
     table sc ! s = 0 \<or>
     (table sc ! s < n_entries sc \<and> unat (table sc ! s) < length (entries sc) \<and>
      unat (hash_for s (table_size sc) (fst (entries sc ! unat (table sc ! s)))) = s)"

definition slots_ok :: "small_cuckoo \<Rightarrow> bool" where
  "slots_ok sc \<longleftrightarrow> list_all (slot_ok sc) [0..<length (table sc)]"

text \<open>The indices held by the slot table.\<close>

definition occupants :: "small_cuckoo \<Rightarrow> u16 set" where
  "occupants sc = set (table sc) - {0}"

definition well_formed :: "small_cuckoo \<Rightarrow> bool" where
  "well_formed sc \<longleftrightarrow> length (table sc) = table_size sc \<and> slots_ok sc"

text \<open>What \<open>insert\<close> never touches.\<close>

definition same_store :: "small_cuckoo \<Rightarrow> small_cuckoo \<Rightarrow> bool" where
  "same_store sc sc' \<longleftrightarrow>
     entries sc' = entries sc \<and> n_entries sc' = n_entries sc \<and> entries_len sc' = entries_len sc"

text \<open>
  A table as the public operations leave it: the entry array holds \<open>n_entries\<close> cells,
  and the slot table holds exactly the indices \<open>1 ..< n_entries\<close>.
\<close>

definition table_inv :: "small_cuckoo \<Rightarrow> bool" where
  "table_inv sc \<longleftrightarrow>
     well_formed sc \<and> 0 < n_entries sc \<and> length (entries sc) = unat (n_entries sc) \<and>
     occupants sc = {i. 0 < i \<and> i < n_entries sc}"

text \<open>An index that may be handed to \<open>insert\<close>: it names a cell of the entry array.\<close>

definition valid_index :: "small_cuckoo \<Rightarrow> u16 \<Rightarrow> bool" where
  "valid_index sc i \<longleftrightarrow> unat i < length (entries sc) \<and> i < n_entries sc"

text \<open>
  The state after some exchanges of \<open>insert\<close>, with \<open>i'\<close> in hand, against the state
  it started from with \<open>i\<close> in hand: the indices in the table and in hand are the same.
\<close>

definition handed :: "small_cuckoo \<Rightarrow> u16 \<Rightarrow> small_cuckoo \<Rightarrow> u16 \<Rightarrow> bool" where
  "handed sc i sc' i' \<longleftrightarrow>
     well_formed sc' \<and> valid_index sc' i' \<and>
     occupants sc' \<union> ({i'} - {0}) = occupants sc \<union> ({i} - {0})"

definition frame :: "small_cuckoo \<Rightarrow> small_cuckoo \<Rightarrow> bool" where
  "frame sc sc' \<longleftrightarrow> same_store sc sc' \<and> table_size sc \<le> table_size sc'"

text \<open>What a call of \<open>insert\<close> that returns is known to do, as \<open>double_size\<close> uses it.\<close>

definition ins_ok :: "(small_cuckoo \<Rightarrow> u16 \<Rightarrow> small_cuckoo outcome) \<Rightarrow> bool" where
  "ins_ok ins \<longleftrightarrow>
     (\<forall>sc k sc'. ins sc k = Some (Inr sc') \<longrightarrow> well_formed sc \<longrightarrow> valid_index sc k \<longrightarrow>
        handed sc k sc' 0)"

text \<open>
  The table \<open>small_cuckoo_insert\<close> hands to \<open>insert\<close>: the count incremented, the
  array grown if needed, the new entry stored.
\<close>

definition inserted_store :: "small_cuckoo \<Rightarrow> u64 \<Rightarrow> u64 \<Rightarrow> small_cuckoo" where
  "inserted_store sc key val =
     sc\<lparr>n_entries := n_entries sc + 1,
        entries_len := (if entries_len sc \<le> n_entries sc + 1 then push_bit 1 (entries_len sc)
                        else entries_len sc),
        entries := entries sc @ [(key, val)]\<rparr>"

text \<open>
  The allocated length of the entry array against the entry count: a power of two up to
  \<open>2 ^ 15\<close>, not below the count and at most twice the count.
\<close>

definition cap_inv :: "small_cuckoo \<Rightarrow> bool" where
  "cap_inv sc \<longleftrightarrow>
     (\<exists>k \<le> 15. unat (entries_len sc) = 2 ^ k \<and> unat (n_entries sc) \<le> 2 ^ k \<and>
                2 ^ k \<le> 2 * unat (n_entries sc))"

text \<open>An iterator over \<open>sc\<close> with its cursor at \<open>p\<close>.\<close>

definition iter_at :: "small_cuckoo \<Rightarrow> u16 \<Rightarrow> small_cuckoo_iter" where
  "iter_at sc p = \<lparr>iter_sc = sc, iter_i = p\<rparr>"

declare small_cuckoo_iter_has_next.simps [code]
declare small_cuckoo_iter_next.simps [code]

section \<open>Properties of the hash selectors\<close>

lemma hashword_two:
  "hashword [k0, k1] initval =
     snd (snd (final (0xdeadbeef + 8 + initval + k0) (0xdeadbeef + 8 + initval + k1)
                     (0xdeadbeef + 8 + initval)))"
  by (simp add: hashword_def Let_def)

lemmas hash_eval =
  hash_1_def larsons_hash_def key_byte_def hash_2_def hashword_two final_def rot_def

lemma key_byte_low56:
  assumes "take_bit 56 k1 = take_bit 56 (k2 :: u64)" and "j < 7"
  shows "key_byte k1 j = key_byte k2 j"
proof -
  have "(ucast (drop_bit (8 * j) k1) :: u8) = ucast (drop_bit (8 * j) k2)"
  proof (rule bit_word_eqI)
    fix n :: nat
    assume "n < LENGTH(8)"
    then have n: "n < 8" by simp
    with \<open>j < 7\<close> have lt: "8 * j + n < 56" by simp
    have "bit k1 (8 * j + n) = bit (take_bit 56 k1) (8 * j + n)"
      using lt by (simp add: bit_take_bit_iff)
    also have "\<dots> = bit (take_bit 56 k2) (8 * j + n)"
      using assms(1) by simp
    also have "\<dots> = bit k2 (8 * j + n)"
      using lt by (simp add: bit_take_bit_iff)
    finally show "bit (ucast (drop_bit (8 * j) k1) :: u8) n = bit (ucast (drop_bit (8 * j) k2) :: u8) n"
      using n by (simp add: bit_ucast_iff bit_drop_bit_eq)
  qed
  then show ?thesis by (simp add: key_byte_def)
qed

text \<open>
  C10. \<open>larsons_hash\<close> reads seven bytes of the key, so \<open>hash_1\<close> sees the low 56 bits
  only: two keys that agree on their low 7 bytes get the same even slot, at every table
  size.
\<close>

theorem hash_1_low56:
  "take_bit 56 k1 = take_bit 56 (k2 :: u64) \<Longrightarrow> hash_1 n k1 = hash_1 n k2"
  by (simp add: hash_1_def larsons_hash_def key_byte_low56 [of k1 k2])

theorem hash_1_low56_witness:
  "take_bit 56 (0x0100000000000007 :: u64) = take_bit 56 (0xFF00000000000007 :: u64)
   \<and> 0x0100000000000007 \<noteq> (0xFF00000000000007 :: u64)
   \<and> hash_1 8 0x0100000000000007 = hash_1 8 0xFF00000000000007"
proof -
  have h: "take_bit 56 (0x0100000000000007 :: u64) = take_bit 56 (0xFF00000000000007 :: u64)"
    by simp
  show ?thesis
    using h hash_1_low56 [OF h, of 8] by simp
qed

lemma even_unat_iff: "even (unat (w :: 'a::len word)) \<longleftrightarrow> \<not> bit w 0"
proof -
  have "bit (unat w) 0 \<longleftrightarrow> bit w 0"
    by (simp add: bit_unsigned_iff)
  then show ?thesis
    by (simp add: bit_0)
qed

lemma even_sel: "even (unat (ucast (push_bit 1 (y::u64)) :: u16))"
proof -
  have "\<not> bit (push_bit 1 y) 0"
    by (simp add: bit_0 push_bit_eq_mult)
  then show ?thesis
    unfolding even_unat_iff by (simp add: bit_ucast_iff)
qed

lemma odd_sel: "odd (unat (ucast (1 + push_bit 1 (y::u64)) :: u16))"
proof -
  have "bit (1 + push_bit 1 y) 0"
    by (simp add: bit_0 push_bit_eq_mult)
  then show ?thesis
    unfolding even_unat_iff by (simp add: bit_ucast_iff)
qed

lemma even_hash_1: "even (unat (hash_1 n k))"
  unfolding hash_1_def by (rule even_sel)

lemma odd_hash_2: "odd (unat (hash_2 n k))"
  unfolding hash_2_def Let_def by (rule odd_sel)

lemma unat_sel_le:
  fixes x :: u64
  shows "unat (ucast (push_bit 1 (x AND m)) :: u16) \<le> 2 * unat m"
proof -
  have "unat (ucast (push_bit 1 (x AND m)) :: u16) \<le> unat (push_bit 1 (x AND m))"
    by (simp add: unsigned_ucast_eq)
  also have "\<dots> \<le> push_bit 1 (unat (x AND m))"
    by (simp only: unsigned_push_bit_eq take_bit_nat_less_eq_self)
  also have "\<dots> = 2 * unat (x AND m)"
    by (simp add: push_bit_eq_mult)
  also have "\<dots> \<le> 2 * unat m"
    using word_and_le1 [of x m] by (simp add: word_le_nat_alt)
  finally show ?thesis .
qed

lemma unat_mask_le:
  assumes "2 \<le> n" "(of_nat (n div 2) :: u64) \<noteq> 0"
  shows "2 * unat (of_nat (n div 2) - 1 :: u64) + 2 \<le> n"
proof -
  have "unat (of_nat (n div 2) - 1 :: u64) = unat (of_nat (n div 2) :: u64) - 1"
    using assms(2) by (rule unat_minus_one)
  moreover have "unat (of_nat (n div 2) :: u64) \<le> n div 2"
    by (simp add: unat_of_nat)
  moreover have "0 < unat (of_nat (n div 2) :: u64)"
    using assms(2) by (simp add: unat_gt_0)
  ultimately show ?thesis by linarith
qed

lemma big_when_zero:
  assumes "2 \<le> n" "(of_nat (n div 2) :: u64) = 0"
  shows "2 ^ 16 \<le> n"
proof -
  have "unat (of_nat (n div 2) :: u64) = 0"
    using assms(2) by simp
  then have "(n div 2) mod 2 ^ 64 = 0"
    by (simp add: unat_of_nat)
  then have "2 ^ 64 dvd n div 2" by presburger
  moreover have "0 < n div 2" using assms(1) by simp
  ultimately have "2 ^ 64 \<le> n div 2" by (rule dvd_imp_le)
  then show ?thesis by simp
qed

lemma unat_hash_1_less: 
  assumes "2 \<le> n" shows "unat (hash_1 n k) < n"
proof (cases "(of_nat (n div 2) :: u64) = 0")
  case True
  have "unat (hash_1 n k) < 2 ^ 16"
    using unsigned_less [of "hash_1 n k", where 'a = nat] by simp
  with big_when_zero [OF assms True] show ?thesis by linarith
next
  case False
  show ?thesis
    using unat_sel_le [of "ucast (larsons_hash k)" "of_nat (n div 2) - 1"]
      unat_mask_le [OF assms False]
    unfolding hash_1_def by linarith
qed

section \<open>What insert leaves unchanged\<close>

lemma X_Inr:
  assumes "X fn sc i = Inr (sc', i')"
  shows "unat i < length (entries sc)
       \<and> unat (fn (table_size sc) (fst (entries sc ! unat i))) < length (table sc)
       \<and> sc' = sc\<lparr>table := (table sc)[unat (fn (table_size sc) (fst (entries sc ! unat i))) := i]\<rparr>
       \<and> i' = table sc ! unat (fn (table_size sc) (fst (entries sc ! unat i)))"
  using assms
  by (auto simp: X_def Let_def xor.commute xor.left_commute split: if_splits)

lemma frame_refl: "frame sc sc"
  by (simp add: frame_def same_store_def)

lemma frame_trans: "frame a b \<Longrightarrow> frame b c \<Longrightarrow> frame a c"
  by (auto simp: frame_def same_store_def)

lemma X_frame:
  assumes "X fn sc i = Inr (sc', i')"
  shows "same_store sc sc' \<and> table_size sc' = table_size sc"
  using X_Inr [OF assms] by (simp add: same_store_def)

lemma insert_loop_frame:
  "insert_loop n sc i = Inr r \<Longrightarrow>
   (case r of Returned sc' \<Rightarrow> same_store sc sc' \<and> table_size sc' = table_size sc
            | Exhausted sc' i' \<Rightarrow> same_store sc sc' \<and> table_size sc' = table_size sc)"
proof (induction n arbitrary: sc i)
  case 0
  then show ?case by (auto simp: same_store_def)
next
  case (Suc n)
  from Suc.prems obtain sc1 i1 where x1: "X hash_1 sc i = Inr (sc1, i1)"
    by (auto split: sum.splits)
  note f1 = X_frame [OF x1]
  show ?case
  proof (cases "i1 = 0")
    case True
    with Suc.prems x1 f1 show ?thesis by auto
  next
    case False
    with Suc.prems x1 obtain sc2 i2 where x2: "X hash_2 sc1 i1 = Inr (sc2, i2)"
      by (auto split: sum.splits)
    note f2 = X_frame [OF x2]
    show ?thesis
    proof (cases "i2 = 0")
      case True
      with Suc.prems x1 x2 \<open>i1 \<noteq> 0\<close> f1 f2 show ?thesis
        by (auto simp: same_store_def)
    next
      case i2: False
      with Suc.prems x1 x2 \<open>i1 \<noteq> 0\<close> have "insert_loop n sc2 i2 = Inr r" by simp
      from Suc.IH [OF this] f1 f2 show ?thesis
        by (auto simp: same_store_def split: placement.splits)
    qed
  qed
qed

lemma double_size_loop_done:
  "\<not> i < table_size sc div 2 \<Longrightarrow> double_size_loop ins prev i sc = Some (Inr sc)"
  by (subst double_size_loop.simps) simp

lemma double_size_loop_oob:
  "i < table_size sc div 2 \<Longrightarrow> \<not> i < length prev \<Longrightarrow>
   double_size_loop ins prev i sc = Some (Inl OutOfBounds)"
  by (subst double_size_loop.simps) simp

lemma double_size_loop_skip:
  "i < table_size sc div 2 \<Longrightarrow> i < length prev \<Longrightarrow> prev ! i = 0 \<Longrightarrow>
   double_size_loop ins prev i sc = double_size_loop ins prev (i + 1) sc"
  by (subst double_size_loop.simps) simp

lemma double_size_loop_call:
  "i < table_size sc div 2 \<Longrightarrow> i < length prev \<Longrightarrow> prev ! i \<noteq> 0 \<Longrightarrow>
   double_size_loop ins prev i sc =
     (case ins sc (prev ! i) of
        None \<Rightarrow> None
      | Some (Inl e) \<Rightarrow> Some (Inl e)
      | Some (Inr sc') \<Rightarrow> double_size_loop ins prev (i + 1) sc')"
  by (subst double_size_loop.simps) simp

lemma double_size_loop_frame:
  "double_size_loop ins prev i sc = Some (Inr sc') \<Longrightarrow>
   (\<And>sc k sc'. ins sc k = Some (Inr sc') \<Longrightarrow> frame sc sc') \<Longrightarrow> frame sc sc'"
proof (induction ins prev i sc rule: double_size_loop.induct)
  case (1 ins prev i sc)
  note run = "1.prems"(1) and ins = "1.prems"(2)
  show ?case
  proof (cases "i < table_size sc div 2")
    case False
    with run show ?thesis by (simp add: double_size_loop_done frame_refl)
  next
    case bound: True
    have len: "i < length prev"
    proof (rule ccontr)
      assume "\<not> i < length prev"
      with run bound show False by (simp add: double_size_loop_oob)
    qed
    show ?thesis
    proof (cases "prev ! i = 0")
      case True
      with run bound len have rest: "double_size_loop ins prev (i + 1) sc = Some (Inr sc')"
        by (simp add: double_size_loop_skip)
      show ?thesis
        by (rule "1.IH"(2) [OF bound len _ rest]) (use True in simp, erule ins)
    next
      case False
      with run bound len obtain sc1 where
        k: "ins sc (prev ! i) = Some (Inr sc1)" and
        rest: "double_size_loop ins prev (i + 1) sc1 = Some (Inr sc')"
        by (auto simp: double_size_loop_call split: option.splits sum.splits)
      have "frame sc1 sc'"
        by (rule "1.IH"(1) [OF bound len False k refl rest]) (erule ins)
      with ins [OF k] show ?thesis by (rule frame_trans)
    qed
  qed
qed

lemma double_size_frame:
  assumes "double_size ins sc = Some (Inr sc')"
    and "\<And>sc k sc'. ins sc k = Some (Inr sc') \<Longrightarrow> frame sc sc'"
  shows "same_store sc sc' \<and> 2 * table_size sc \<le> table_size sc'"
proof -
  let ?sc2 = "sc\<lparr>table_size := 2 * table_size sc, table := replicate (2 * table_size sc) 0\<rparr>"
  from assms(1) have run: "double_size_loop ins (table sc) 0 ?sc2 = Some (Inr sc')"
    by (simp add: double_size_def Let_def)
  have "frame ?sc2 sc'"
    by (rule double_size_loop_frame [OF run]) (erule assms(2))
  then show ?thesis
    by (simp add: frame_def same_store_def)
qed

lemma insert_index_frame:
  "insert_index fuel sc i = Some (Inr sc') \<Longrightarrow> frame sc sc'"
proof (induction fuel arbitrary: sc i sc')
  case 0
  then show ?case by simp
next
  case (Suc fuel)
  show ?case
  proof (cases "insert_loop MAX_LOOPS sc i")
    case (Inl e)
    with Suc.prems show ?thesis by simp
  next
    case (Inr r)
    note fr = insert_loop_frame [OF Inr]
    show ?thesis
    proof (cases r)
      case (Returned sc1)
      with Suc.prems Inr fr show ?thesis by (simp add: frame_def)
    next
      case (Exhausted sc1 i1)
      with Suc.prems Inr obtain sc2 where
        d: "double_size (insert_index fuel) sc1 = Some (Inr sc2)" and
        again: "insert_index fuel sc2 i1 = Some (Inr sc')"
        by (simp split: option.splits sum.splits)
      have "same_store sc1 sc2 \<and> 2 * table_size sc1 \<le> table_size sc2"
        by (rule double_size_frame [where ins = "insert_index fuel", OF d]) (erule Suc.IH)
      then have "frame sc1 sc2"
        by (simp add: frame_def)
      moreover from fr Exhausted have "frame sc sc1" by (simp add: frame_def)
      ultimately have "frame sc sc2" by (rule frame_trans [rotated])
      then show ?thesis using Suc.IH [OF again] by (rule frame_trans)
    qed
  qed
qed

section \<open>The slot invariant through insert\<close>

lemma slots_ok_iff: "slots_ok sc \<longleftrightarrow> (\<forall>s < length (table sc). slot_ok sc s)"
  by (auto simp: slots_ok_def list_all_iff)

lemma set_swap:
  assumes "h < length t"
  shows "insert (t ! h) (set (t[h := i])) = insert i (set t)"
proof (rule set_eqI)
  fix x
  show "x \<in> insert (t ! h) (set (t[h := i])) \<longleftrightarrow> x \<in> insert i (set t)"
  proof
    assume "x \<in> insert (t ! h) (set (t[h := i]))"
    then show "x \<in> insert i (set t)"
      using assms set_update_subset_insert [of t h i] by auto
  next
    assume "x \<in> insert i (set t)"
    then consider "x = i" | "x \<in> set t" by auto
    then show "x \<in> insert (t ! h) (set (t[h := i]))"
    proof cases
      case 1
      then show ?thesis using assms by (simp add: set_update_memI)
    next
      case 2
      then obtain j where j: "j < length t" "x = t ! j"
        by (auto simp: in_set_conv_nth)
      show ?thesis
      proof (cases "j = h")
        case True
        with j show ?thesis by simp
      next
        case False
        with j have "x = t[h := i] ! j" by simp
        with j(1) show ?thesis
          by (metis insertI2 length_list_update nth_mem)
      qed
    qed
  qed
qed

lemma hash_for_selector:
  assumes "fn = hash_1 \<or> fn = hash_2"
  shows "hash_for (unat (fn n k)) = fn"
  using assms even_hash_1 [of n k] odd_hash_2 [of n k]
  by (auto simp: hash_for_def)

lemma X_wf:
  assumes x: "X fn sc i = Inr (sc', i')"
    and fn: "fn = hash_1 \<or> fn = hash_2"
    and wfsc: "well_formed sc" and vi: "valid_index sc i"
  shows "handed sc i sc' i'"
proof -
  define h where "h = unat (fn (table_size sc) (fst (entries sc ! unat i)))"
  from X_Inr [OF x] have h: "h < length (table sc)"
    and sc': "sc' = sc\<lparr>table := (table sc)[h := i]\<rparr>"
    and i': "i' = table sc ! h"
    by (simp_all add: h_def)
  from wfsc have ok: "\<And>s. s < length (table sc) \<Longrightarrow> slot_ok sc s"
    by (simp add: well_formed_def slots_ok_iff)
  have "slot_ok sc' s" if s: "s < length (table sc')" for s
  proof (cases "s = h")
    case True
    have "hash_for h = fn"
      unfolding h_def by (rule hash_for_selector [OF fn])
    with True vi h show ?thesis
      by (simp add: slot_ok_def sc' valid_index_def h_def)
  next
    case False
    with s ok [of s] show ?thesis
      by (simp add: slot_ok_def sc')
  qed
  then have "well_formed sc'"
    using wfsc by (simp add: well_formed_def slots_ok_iff sc')
  moreover have "valid_index sc' i'"
  proof (cases "i' = 0")
    case True
    with vi show ?thesis
      by (auto simp: valid_index_def sc' word_less_nat_alt)
  next
    case False
    with ok [OF h] show ?thesis
      by (simp add: slot_ok_def i' valid_index_def sc')
  qed
  moreover have "occupants sc' \<union> ({i'} - {0}) = occupants sc \<union> ({i} - {0})"
  proof -
    have "occupants sc' \<union> ({i'} - {0}) = insert i' (set (table sc')) - {0}"
      by (auto simp: occupants_def)
    also have "\<dots> = insert i (set (table sc)) - {0}"
      using set_swap [OF h, of i] by (simp add: sc' i')
    also have "\<dots> = occupants sc \<union> ({i} - {0})"
      by (auto simp: occupants_def)
    finally show ?thesis .
  qed
  ultimately show ?thesis by (simp add: handed_def)
qed

lemma handed_trans:
  "handed a i b j \<Longrightarrow> handed b j c k \<Longrightarrow> handed a i c k"
  by (auto simp: handed_def)

lemma handed_refl: "well_formed sc \<Longrightarrow> valid_index sc i \<Longrightarrow> handed sc i sc i"
  by (simp add: handed_def)

lemma valid_index_frame: "frame sc sc' \<Longrightarrow> valid_index sc' k = valid_index sc k"
  by (simp add: frame_def same_store_def valid_index_def)

lemma insert_loop_wf:
  "insert_loop n sc i = Inr r \<Longrightarrow> well_formed sc \<Longrightarrow> valid_index sc i \<Longrightarrow>
   (case r of Returned sc' \<Rightarrow> handed sc i sc' 0 | Exhausted sc' i' \<Rightarrow> handed sc i sc' i')"
proof (induction n arbitrary: sc i)
  case 0
  then show ?case by (auto simp: handed_refl)
next
  case (Suc n)
  from Suc.prems(1) obtain sc1 i1 where x1: "X hash_1 sc i = Inr (sc1, i1)"
    by (auto split: sum.splits)
  have h1: "handed sc i sc1 i1"
    using X_wf [OF x1 _ Suc.prems(2,3)] by simp
  show ?case
  proof (cases "i1 = 0")
    case True
    with Suc.prems(1) x1 h1 show ?thesis by auto
  next
    case False
    with Suc.prems(1) x1 obtain sc2 i2 where x2: "X hash_2 sc1 i1 = Inr (sc2, i2)"
      by (auto split: sum.splits)
    from h1 have "well_formed sc1" "valid_index sc1 i1"
      by (simp_all add: handed_def)
    then have "handed sc1 i1 sc2 i2"
      using X_wf [OF x2] by simp
    with h1 have h2: "handed sc i sc2 i2" by (rule handed_trans)
    show ?thesis
    proof (cases "i2 = 0")
      case True
      with Suc.prems(1) x1 x2 \<open>i1 \<noteq> 0\<close> h2 show ?thesis by auto
    next
      case i2: False
      with Suc.prems(1) x1 x2 \<open>i1 \<noteq> 0\<close> have run: "insert_loop n sc2 i2 = Inr r" by simp
      from h2 have "well_formed sc2" "valid_index sc2 i2"
        by (simp_all add: handed_def)
      from Suc.IH [OF run this] h2 show ?thesis
        by (auto split: placement.splits intro: handed_trans)
    qed
  qed
qed

lemma ins_okD:
  "ins_ok ins \<Longrightarrow> ins sc k = Some (Inr sc') \<Longrightarrow> well_formed sc \<Longrightarrow> valid_index sc k \<Longrightarrow>
   handed sc k sc' 0"
  by (simp add: ins_ok_def)

lemma double_size_loop_wf:
  "double_size_loop ins prev i sc = Some (Inr sc') \<Longrightarrow>
   ins_ok ins \<Longrightarrow> (\<And>sc k sc'. ins sc k = Some (Inr sc') \<Longrightarrow> frame sc sc') \<Longrightarrow>
   well_formed sc \<Longrightarrow> (\<forall>k\<in>set prev. k \<noteq> 0 \<longrightarrow> valid_index sc k) \<Longrightarrow>
   length prev \<le> table_size sc div 2 \<Longrightarrow>
   well_formed sc' \<and> occupants sc' = occupants sc \<union> (set (drop i prev) - {0})"
proof (induction ins prev i sc rule: double_size_loop.induct)
  case (1 ins prev i sc)
  note run = "1.prems"(1) and ok = "1.prems"(2) and fr = "1.prems"(3)
    and wfsc = "1.prems"(4) and valid = "1.prems"(5) and len_prev = "1.prems"(6)
  show ?case
  proof (cases "i < table_size sc div 2")
    case False
    with len_prev have "drop i prev = []" by simp
    with run False wfsc show ?thesis by (simp add: double_size_loop_done)
  next
    case bound: True
    have len: "i < length prev"
    proof (rule ccontr)
      assume "\<not> i < length prev"
      with run bound show False by (simp add: double_size_loop_oob)
    qed
    have drop: "set (drop i prev) = insert (prev ! i) (set (drop (i + 1) prev))"
      using len by (simp add: Cons_nth_drop_Suc [symmetric])
    show ?thesis
    proof (cases "prev ! i = 0")
      case True
      with run bound len have rest: "double_size_loop ins prev (i + 1) sc = Some (Inr sc')"
        by (simp add: double_size_loop_skip)
      have "well_formed sc' \<and> occupants sc' = occupants sc \<union> (set (drop (i + 1) prev) - {0})"
        by (rule "1.IH"(2) [OF bound len _ rest ok _ wfsc valid len_prev])
           (use True in simp, erule fr)
      with True drop show ?thesis by auto
    next
      case False
      with run bound len obtain sc1 where
        k: "ins sc (prev ! i) = Some (Inr sc1)" and
        rest: "double_size_loop ins prev (i + 1) sc1 = Some (Inr sc')"
        by (auto simp: double_size_loop_call split: option.splits sum.splits)
      from valid len False have vk: "valid_index sc (prev ! i)" by simp
      from ins_okD [OF ok k wfsc vk] have h: "handed sc (prev ! i) sc1 0" .
      note f1 = fr [OF k]
      from h have wf1: "well_formed sc1" by (simp add: handed_def)
      from valid f1 have valid1: "\<forall>k\<in>set prev. k \<noteq> 0 \<longrightarrow> valid_index sc1 k"
        by (simp add: valid_index_frame)
      from len_prev f1 have len1: "length prev \<le> table_size sc1 div 2"
        by (simp add: frame_def) linarith
      have "well_formed sc' \<and> occupants sc' = occupants sc1 \<union> (set (drop (i + 1) prev) - {0})"
        by (rule "1.IH"(1) [OF bound len False k refl rest ok _ wf1 valid1 len1]) (erule fr)
      moreover from h False have "occupants sc1 = occupants sc \<union> {prev ! i}"
        by (auto simp: handed_def)
      ultimately show ?thesis using drop False by auto
    qed
  qed
qed

lemma double_size_wf:
  assumes run: "double_size ins sc = Some (Inr sc')"
    and ok: "ins_ok ins" and fr: "\<And>sc k sc'. ins sc k = Some (Inr sc') \<Longrightarrow> frame sc sc'"
    and wfsc: "well_formed sc"
  shows "well_formed sc' \<and> occupants sc' = occupants sc"
proof -
  let ?sc2 = "sc\<lparr>table_size := 2 * table_size sc, table := replicate (2 * table_size sc) 0\<rparr>"
  from run have loop: "double_size_loop ins (table sc) 0 ?sc2 = Some (Inr sc')"
    by (simp add: double_size_def Let_def)
  have wf2: "well_formed ?sc2"
    by (simp add: well_formed_def slots_ok_iff slot_ok_def)
  from wfsc have ok_sc: "slot_ok sc s" if "s < length (table sc)" for s
    using that by (auto simp: well_formed_def slots_ok_iff)
  have valid: "\<forall>k\<in>set (table sc). k \<noteq> 0 \<longrightarrow> valid_index ?sc2 k"
  proof (intro ballI impI)
    fix k assume "k \<in> set (table sc)" "k \<noteq> 0"
    then obtain s where "s < length (table sc)" "table sc ! s = k"
      by (auto simp: in_set_conv_nth)
    with ok_sc [of s] \<open>k \<noteq> 0\<close> show "valid_index ?sc2 k"
      by (simp add: slot_ok_def valid_index_def)
  qed
  from wfsc have len: "length (table sc) \<le> table_size ?sc2 div 2"
    by (simp add: well_formed_def)
  have "well_formed sc' \<and> occupants sc' = occupants ?sc2 \<union> (set (drop 0 (table sc)) - {0})"
    by (rule double_size_loop_wf [OF loop ok _ wf2 valid len]) (erule fr)
  moreover have "occupants ?sc2 = {}"
    by (auto simp: occupants_def)
  ultimately show ?thesis by (auto simp: occupants_def)
qed

lemma insert_index_wf:
  "insert_index fuel sc i = Some (Inr sc') \<Longrightarrow> well_formed sc \<Longrightarrow> valid_index sc i \<Longrightarrow>
   handed sc i sc' 0"
proof (induction fuel arbitrary: sc i sc')
  case 0
  then show ?case by simp
next
  case (Suc fuel)
  have ok: "ins_ok (insert_index fuel)"
    unfolding ins_ok_def by (blast intro: Suc.IH)
  show ?case
  proof (cases "insert_loop MAX_LOOPS sc i")
    case (Inl e)
    with Suc.prems show ?thesis by simp
  next
    case (Inr r)
    note h = insert_loop_wf [OF Inr Suc.prems(2,3)] and f = insert_loop_frame [OF Inr]
    show ?thesis
    proof (cases r)
      case (Returned sc1)
      with Suc.prems Inr h show ?thesis by simp
    next
      case (Exhausted sc1 i1)
      with Suc.prems Inr obtain sc2 where
        d: "double_size (insert_index fuel) sc1 = Some (Inr sc2)" and
        again: "insert_index fuel sc2 i1 = Some (Inr sc')"
        by (simp split: option.splits sum.splits)
      from h Exhausted have h1: "handed sc i sc1 i1" by simp
      then have wf1: "well_formed sc1" and v1: "valid_index sc1 i1"
        by (simp_all add: handed_def)
      have d_wf: "well_formed sc2 \<and> occupants sc2 = occupants sc1"
        by (rule double_size_wf [OF d ok _ wf1]) (erule insert_index_frame)
      have "same_store sc1 sc2 \<and> 2 * table_size sc1 \<le> table_size sc2"
        by (rule double_size_frame [where ins = "insert_index fuel", OF d]) (erule insert_index_frame)
      then have "frame sc1 sc2" by (simp add: frame_def)
      with v1 have v2: "valid_index sc2 i1" by (simp add: valid_index_frame)
      from d_wf have "handed sc2 i1 sc' 0"
        using Suc.IH [OF again _ v2] by simp
      with h1 d_wf show ?thesis
        by (auto simp: handed_def)
    qed
  qed
qed

section \<open>The public insert and find\<close>

lemma unat_succ:
  assumes "unat (i :: u16) < unat (m :: u16)"
  shows "unat (i + 1) = Suc (unat i)"
proof -
  have "unat m < 2 ^ 16"
    using unsigned_less [of m, where 'a = nat] by simp
  with assms have "unat i + unat (1 :: u16) < 2 ^ LENGTH(16)" by simp
  then have "unat (i + 1) = unat i + unat (1 :: u16)"
    by (simp only: unat_add_lem [THEN iffD1])
  then show ?thesis by simp
qed

lemma small_cuckoo_insert_Inr:
  assumes "small_cuckoo_insert fuel sc key val = Some (Inr sc')"
    and "length (entries sc) = unat (n_entries sc)"
  shows "0 < n_entries sc
       \<and> unat (n_entries sc) < unat (entries_len (inserted_store sc key val))
       \<and> insert_index fuel (inserted_store sc key val) (n_entries sc) = Some (Inr sc')"
  using assms
  by (auto simp: small_cuckoo_insert_def inserted_store_def Let_def store_entry_def
           split: if_splits sum.splits)



lemma small_cuckoo_insert_inv:
  assumes run: "small_cuckoo_insert fuel sc key val = Some (Inr sc')"
    and inv: "table_inv sc"
  shows "table_inv sc' \<and> entries sc' = entries sc @ [(key, val)]"
proof -
  let ?i = "n_entries sc"
  let ?mid = "inserted_store sc key val"
  from inv have len: "length (entries sc) = unat ?i" and wfsc: "well_formed sc"
    and occ: "occupants sc = {j. 0 < j \<and> j < ?i}"
    by (simp_all add: table_inv_def)
  note u = small_cuckoo_insert_Inr [OF run len]
  then have pos: "0 < ?i" and run': "insert_index fuel ?mid ?i = Some (Inr sc')"
    by simp_all
  from u have suc: "unat (?i + 1) = Suc (unat ?i)"
    by (auto intro: unat_succ)
  have lt_suc: "j < ?i + 1 \<longleftrightarrow> j < ?i \<or> j = ?i" for j
    by (auto simp: word_less_nat_alt suc word_unat_eq_iff)
  from wfsc have ok_sc: "slot_ok sc s" if "s < length (table sc)" for s
    using that by (auto simp: well_formed_def slots_ok_iff)
  have "slot_ok ?mid s" if "s < length (table sc)" for s
    using ok_sc [OF that]
    by (auto simp: slot_ok_def inserted_store_def lt_suc nth_append)
  with wfsc have wf_mid: "well_formed ?mid"
    by (simp add: well_formed_def slots_ok_iff inserted_store_def)
  have v_mid: "valid_index ?mid ?i"
    by (simp add: valid_index_def inserted_store_def len lt_suc)
  from insert_index_wf [OF run' wf_mid v_mid]
  have wf': "well_formed sc'" and occ': "occupants sc' = occupants ?mid \<union> ({?i} - {0})"
    by (simp_all add: handed_def)
  from insert_index_frame [OF run']
  have es: "entries sc' = entries sc @ [(key, val)]" and n: "n_entries sc' = ?i + 1"
    by (simp_all add: frame_def same_store_def inserted_store_def)
  have "occupants ?mid = occupants sc"
    by (simp add: occupants_def inserted_store_def)
  with occ' occ pos have "occupants sc' = {j. 0 < j \<and> j < ?i + 1}"
    by (auto simp: lt_suc)
  moreover have "0 < ?i + 1"
    using pos suc by (simp add: word_less_nat_alt)
  ultimately have "table_inv sc'"
    using wf' es n len suc by (simp add: table_inv_def)
  with es show ?thesis by simp
qed

lemma small_cuckoo_new_inv:
  assumes "small_cuckoo_new e0 initial_size = Inr sc"
  shows "table_inv sc \<and> entries sc = [e0]"
proof -
  from assms obtain ts where
    sc: "sc = \<lparr>table_size = ts, table = replicate ts 0, n_entries = 1,
               entries_len = ucast (1 + initial_size), entries = [e0]\<rparr>"
    by (auto simp: small_cuckoo_new_def split: sum.splits)
  have "{j :: u16. 0 < j \<and> j < 1} = {}"
    by (auto simp: word_less_nat_alt)
  then show ?thesis
    by (auto simp: sc table_inv_def well_formed_def slots_ok_iff slot_ok_def occupants_def)
qed

lemma insert_all_inv:
  "insert_all fuel sc kvs = Some (Inr sc') \<Longrightarrow> table_inv sc \<Longrightarrow>
   table_inv sc' \<and> entries sc' = entries sc @ kvs"
proof (induction kvs arbitrary: sc)
  case Nil
  then show ?case by simp
next
  case (Cons kv kvs)
  from Cons.prems(1) obtain sc1 where
    one: "small_cuckoo_insert fuel sc (fst kv) (snd kv) = Some (Inr sc1)" and
    rest: "insert_all fuel sc1 kvs = Some (Inr sc')"
    by (auto split: option.splits sum.splits)
  from small_cuckoo_insert_inv [OF one Cons.prems(2)]
  have "table_inv sc1" "entries sc1 = entries sc @ [kv]" by simp_all
  with Cons.IH [OF rest] show ?case by simp
qed

lemma find_X_slot:
  assumes "h < length (table sc)" and "slot_ok sc h"
  shows "find_X sc h key =
     Inr (if table sc ! h \<noteq> 0 \<and> fst (entries sc ! unat (table sc ! h)) = key
          then Some (snd (entries sc ! unat (table sc ! h))) else None)"
  using assms by (auto simp: find_X_def slot_ok_def Let_def)

lemma find_after_inv:
  assumes inv: "table_inv sc"
    and dist: "distinct (map fst (tl (entries sc)))"
    and mem: "(k, v) \<in> set (tl (entries sc))"
  shows "small_cuckoo_find sc k = Inr (Some v)"
proof -
  let ?es = "entries sc" and ?t = "table sc" and ?n = "table_size sc"
  from inv have len: "length ?es = unat (n_entries sc)" and wfsc: "well_formed sc"
    and occ: "occupants sc = {j. 0 < j \<and> j < n_entries sc}"
    by (simp_all add: table_inv_def)
  from wfsc have ok: "slot_ok sc s" if "s < length ?t" for s
    using that by (auto simp: well_formed_def slots_ok_iff)
  from wfsc have size: "length ?t = ?n" by (simp add: well_formed_def)
  from mem obtain j0 where j0: "j0 < length (tl ?es)" "tl ?es ! j0 = (k, v)"
    by (auto simp: in_set_conv_nth)
  define j where "j = Suc j0"
  from j0 have j: "0 < j" "j < length ?es" "?es ! j = (k, v)"
    by (simp_all add: j_def nth_tl)
  have uniq: "snd (?es ! m) = v" if "0 < m" "m < length ?es" "fst (?es ! m) = k" for m
  proof -
    from that(1,2) have m: "m - 1 < length (tl ?es)" "tl ?es ! (m - 1) = ?es ! m"
      by (simp_all add: nth_tl)
    with that(3) j0 have "map fst (tl ?es) ! (m - 1) = map fst (tl ?es) ! j0"
      by simp
    moreover from m(1) j0(1) have "m - 1 < length (map fst (tl ?es))" "j0 < length (map fst (tl ?es))"
      by simp_all
    ultimately have "m - 1 = j0"
      using dist by (simp only: nth_eq_iff_index_eq)
    with m(2) j0(2) have "?es ! m = (k, v)" by simp
    then show ?thesis by simp
  qed
  have found: "find_X sc h k = Inr (Some v) \<or> find_X sc h k = Inr None" if "h < length ?t" for h
  proof (cases "?t ! h \<noteq> 0 \<and> fst (?es ! unat (?t ! h)) = k")
    case True
    from ok [OF that] True have "unat (?t ! h) < length ?es"
      by (simp add: slot_ok_def)
    moreover from True have "0 < unat (?t ! h)" by (simp add: unat_gt_0)
    ultimately have "snd (?es ! unat (?t ! h)) = v"
      using True by (intro uniq) simp_all
    with True show ?thesis by (simp add: find_X_slot [OF that ok [OF that]])
  next
    case False
    then show ?thesis by (auto simp: find_X_slot [OF that ok [OF that]])
  qed
  define jw :: u16 where "jw = of_nat j"
  have "j < 2 ^ 16"
    using j(2) len unsigned_less [of "n_entries sc", where 'a = nat] by simp
  then have unat_jw: "unat jw = j"
    by (simp add: jw_def unat_of_nat)
  with j len have "jw \<in> occupants sc"
    by (simp add: occ word_less_nat_alt)
  then obtain s where s: "s < length ?t" "?t ! s = jw" and "jw \<noteq> 0"
    by (auto simp: occupants_def in_set_conv_nth)
  with ok [OF s(1)] j(3) unat_jw have hs: "unat (hash_for s ?n k) = s"
    by (simp add: slot_ok_def)
  have at_s: "find_X sc s k = Inr (Some v)"
    using s \<open>jw \<noteq> 0\<close> j(3) unat_jw by (simp add: find_X_slot [OF s(1) ok [OF s(1)]])
  show ?thesis
  proof (cases "even s")
    case True
    with hs have "unat (hash_1 ?n k) = s" by (simp add: hash_for_def)
    with at_s show ?thesis by (simp add: small_cuckoo_find_def)
  next
    case False
    with hs have h2: "unat (hash_2 ?n k) = s" by (simp add: hash_for_def)
    from False have "1 \<le> s" by (cases s) auto
    with s(1) size have "2 \<le> ?n" by simp
    then have "unat (hash_1 ?n k) < length ?t"
      using unat_hash_1_less [of ?n k] size by simp
    from found [OF this] at_s h2 show ?thesis
      by (auto simp: small_cuckoo_find_def)
  qed
qed

text \<open>
  C1, amended. For every sequence of insertions of distinct keys into a freshly
  constructed table, if every insertion returns, then a find on each inserted key
  succeeds and returns the value inserted with that key.
\<close>

theorem find_after_inserts:
  assumes "small_cuckoo_new e0 initial_size = Inr sc0"
    and "insert_all fuel sc0 kvs = Some (Inr sc)"
    and "distinct (map fst kvs)"
    and "(k, v) \<in> set kvs"
  shows "small_cuckoo_find sc k = Inr (Some v)"
proof -
  from small_cuckoo_new_inv [OF assms(1)] have "table_inv sc0" "entries sc0 = [e0]"
    by simp_all
  with insert_all_inv [OF assms(2)] have "table_inv sc" "entries sc = e0 # kvs"
    by simp_all
  with assms(3,4) show ?thesis
    by (intro find_after_inv) simp_all
qed

section \<open>Evaluation on concrete tables\<close>

lemma insert_loop_MAX_LOOPS:
  "insert_loop MAX_LOOPS sc i =
   insert_loop (Suc (Suc (Suc (Suc (Suc (Suc (Suc (Suc (Suc (Suc (Suc (Suc (Suc (Suc (Suc
     (Suc (Suc (Suc (Suc (Suc 0)))))))))))))))))))) sc i"
  by (simp add: MAX_LOOPS_def eval_nat_numeral)

lemma insert_index_numeral:
  "insert_index (numeral k) sc i =
    (case insert_loop MAX_LOOPS sc i of
       Inl e \<Rightarrow> Some (Inl e)
     | Inr (Returned sc1) \<Rightarrow> Some (Inr sc1)
     | Inr (Exhausted sc1 i1) \<Rightarrow>
         (case double_size (insert_index (pred_numeral k)) sc1 of
            None \<Rightarrow> None
          | Some (Inl e) \<Rightarrow> Some (Inl e)
          | Some (Inr sc2) \<Rightarrow> insert_index (pred_numeral k) sc2 i1))"
  by (simp add: numeral_eq_Suc)

lemma list_update_numeral:
  "(x # xs)[numeral k := y] = x # xs[pred_numeral k := y]"
  by (simp add: numeral_eq_Suc)

lemma replicate_numeral_unfold:
  "replicate (numeral k) x = x # replicate (pred_numeral k) x"
  by (simp add: numeral_eq_Suc)

lemmas table_eval =
  small_cuckoo_new_def shift_one_def ceil_pow2_def small_cuckoo_insert_def store_entry_def
  X_def insert_loop_MAX_LOOPS double_size_def double_size_loop.simps small_cuckoo_find_def
  find_X_def insert_index_numeral list_update_numeral replicate_numeral_unfold Let_def

lemmas eval_cong =
  let_weak_cong sum.case_cong_weak option.case_cong_weak prod.case_cong_weak
  placement.case_cong_weak list.case_cong_weak

lemma hash_size_2: "hash_1 2 k = 0" "hash_2 2 k = 1"
  by (simp_all add: hash_1_def hash_2_def)

lemma hash_size_4:
  "hash_1 4 1 = 0" "hash_2 4 1 = 1" "hash_1 4 2 = 2" "hash_2 4 2 = 3"
  "hash_1 4 3 = 0" "hash_2 4 3 = 1"
  by (simp_all add: hash_eval cong: eval_cong)

text \<open>
  C5, amended. When the 20 rounds of the loop fail to place an entry, \<open>insert\<close> does
  call \<open>double_size\<close> (it is never skipped) and then inserts the index left in hand into
  the grown table from scratch. Whenever \<open>double_size\<close> returns, the table size has at
  least doubled, and whenever \<open>insert\<close> returns after failed rounds, the table is
  strictly larger than before. That the retried insertion succeeds, or that \<open>insert\<close>
  returns at all, is not guaranteed.
\<close>

theorem growth_after_failed_rounds:
  assumes "insert_loop MAX_LOOPS sc i = Inr (Exhausted sc1 i1)" and "0 < table_size sc"
  shows "insert_index (Suc fuel) sc i =
           (case double_size (insert_index fuel) sc1 of
              None \<Rightarrow> None
            | Some (Inl e) \<Rightarrow> Some (Inl e)
            | Some (Inr sc2) \<Rightarrow> insert_index fuel sc2 i1)
       \<and> (\<forall>sc2. double_size (insert_index fuel) sc1 = Some (Inr sc2) \<longrightarrow>
             table_size sc < table_size sc2 \<and> 2 * table_size sc \<le> table_size sc2)
       \<and> (\<forall>sc'. insert_index (Suc fuel) sc i = Some (Inr sc') \<longrightarrow>
             table_size sc < table_size sc')"
proof -
  from insert_loop_frame [OF assms(1)] have same: "table_size sc1 = table_size sc"
    by simp
  have unfold: "insert_index (Suc fuel) sc i =
           (case double_size (insert_index fuel) sc1 of
              None \<Rightarrow> None
            | Some (Inl e) \<Rightarrow> Some (Inl e)
            | Some (Inr sc2) \<Rightarrow> insert_index fuel sc2 i1)"
    using assms(1) by simp
  have grown: "table_size sc < table_size sc2 \<and> 2 * table_size sc \<le> table_size sc2"
    if d: "double_size (insert_index fuel) sc1 = Some (Inr sc2)" for sc2
  proof -
    have "same_store sc1 sc2 \<and> 2 * table_size sc1 \<le> table_size sc2"
      by (rule double_size_frame [where ins = "insert_index fuel", OF d]) (erule insert_index_frame)
    with same assms(2) show ?thesis by simp
  qed
  have "table_size sc < table_size sc'" if r: "insert_index (Suc fuel) sc i = Some (Inr sc')" for sc'
  proof -
    from r unfold obtain sc2 where d: "double_size (insert_index fuel) sc1 = Some (Inr sc2)"
      and again: "insert_index fuel sc2 i1 = Some (Inr sc')"
      by (auto split: option.splits sum.splits)
    from insert_index_frame [OF again] grown [OF d] show ?thesis
      by (simp add: frame_def)
  qed
  with unfold grown show ?thesis by blast
qed

theorem growth_after_failed_rounds_witness:
  "insert_loop MAX_LOOPS
     \<lparr>table_size = 2, table = [2, 1], n_entries = 4, entries_len = 4,
        entries = [(0, 0), (1, 1), (2, 2), (3, 3)]\<rparr> 3
   = Inr (Exhausted \<lparr>table_size = 2, table = [1, 3], n_entries = 4, entries_len = 4,
                      entries = [(0, 0), (1, 1), (2, 2), (3, 3)]\<rparr> 2)
   \<and> double_size (insert_index 1)
        \<lparr>table_size = 2, table = [1, 3], n_entries = 4, entries_len = 4,
           entries = [(0, 0), (1, 1), (2, 2), (3, 3)]\<rparr>
      = Some (Inr \<lparr>table_size = 4, table = [3, 1, 0, 0], n_entries = 4, entries_len = 4,
                   entries = [(0, 0), (1, 1), (2, 2), (3, 3)]\<rparr>)
   \<and> insert_index (Suc 1)
        \<lparr>table_size = 2, table = [2, 1], n_entries = 4, entries_len = 4,
           entries = [(0, 0), (1, 1), (2, 2), (3, 3)]\<rparr> 3
      = Some (Inr \<lparr>table_size = 4, table = [3, 1, 2, 0], n_entries = 4, entries_len = 4,
                   entries = [(0, 0), (1, 1), (2, 2), (3, 3)]\<rparr>)
   \<and> (2 :: nat) < 4"
proof -
  let ?sc = "\<lparr>table_size = 2, table = [2, 1], n_entries = 4, entries_len = 4,
        entries = [(0, 0), (1, 1), (2, 2), (3 :: u64, 3 :: u64)]\<rparr>"
  let ?sc1 = "\<lparr>table_size = 2, table = [1, 3], n_entries = 4, entries_len = 4,
                      entries = [(0, 0), (1, 1), (2, 2), (3 :: u64, 3 :: u64)]\<rparr>"
  have rounds: "insert_loop MAX_LOOPS ?sc 3 = Inr (Exhausted ?sc1 2)"
    by (simp add: table_eval hash_size_2 cong: eval_cong)
  have size: "0 < table_size ?sc" by simp
  have doubled: "double_size (insert_index 1) ?sc1
      = Some (Inr \<lparr>table_size = 4, table = [3, 1, 0, 0], n_entries = 4, entries_len = 4,
                   entries = [(0, 0), (1, 1), (2, 2), (3, 3)]\<rparr>)"
    by (simp add: table_eval hash_size_4 cong: eval_cong)
  have retried: "insert_index 1 \<lparr>table_size = 4, table = [3, 1, 0, 0], n_entries = 4, entries_len = 4,
                   entries = [(0, 0), (1, 1), (2, 2), (3, 3)]\<rparr> 2
      = Some (Inr \<lparr>table_size = 4, table = [3, 1, 2, 0], n_entries = 4, entries_len = 4,
                   entries = [(0, 0), (1, 1), (2, 2), (3, 3)]\<rparr>)"
    by (simp add: table_eval hash_size_4 cong: eval_cong)
  from growth_after_failed_rounds [OF rounds size, of 1] rounds doubled retried
  show ?thesis by simp
qed

section \<open>Keys that share both candidate slots\<close>

lemma occupant_slot:
  assumes "table_inv sc" and "x \<in> occupants sc"
  shows "\<exists>s < length (table sc). table sc ! s = x \<and>
           (s = unat (hash_1 (table_size sc) (fst (entries sc ! unat x))) \<or>
            s = unat (hash_2 (table_size sc) (fst (entries sc ! unat x))))"
proof -
  from assms(2) obtain s where s: "s < length (table sc)" "table sc ! s = x" and "x \<noteq> 0"
    by (auto simp: occupants_def in_set_conv_nth)
  from assms(1) s(1) have "slot_ok sc s"
    by (auto simp: table_inv_def well_formed_def slots_ok_iff)
  with s \<open>x \<noteq> 0\<close> have "unat (hash_for s (table_size sc) (fst (entries sc ! unat x))) = s"
    by (simp add: slot_ok_def)
  then have "s = unat (hash_1 (table_size sc) (fst (entries sc ! unat x))) \<or>
             s = unat (hash_2 (table_size sc) (fst (entries sc ! unat x)))"
    by (cases "even s") (simp_all add: hash_for_def)
  with s show ?thesis by blast
qed

lemma no_table_for_three:
  assumes inv: "table_inv sc"
    and es: "entries sc = [e0, (k1, v1), (k2, v2), (k3, v3)]"
    and h1: "hash_1 (table_size sc) k1 = hash_1 (table_size sc) k2"
            "hash_1 (table_size sc) k2 = hash_1 (table_size sc) k3"
    and h2: "hash_2 (table_size sc) k1 = hash_2 (table_size sc) k2"
            "hash_2 (table_size sc) k2 = hash_2 (table_size sc) k3"
  shows False
proof -
  from inv es have n: "unat (n_entries sc) = 4"
    by (simp add: table_inv_def)
  from inv have occ: "occupants sc = {j. 0 < j \<and> j < n_entries sc}"
    by (simp add: table_inv_def)
  have "(1 :: u16) \<in> occupants sc" "(2 :: u16) \<in> occupants sc" "(3 :: u16) \<in> occupants sc"
    using n by (simp_all add: occ word_less_nat_alt)
  from this [THEN occupant_slot [OF inv]]
  obtain s1 s2 s3 where
    "table sc ! s1 = 1" "table sc ! s2 = 2" "table sc ! s3 = 3"
    "s1 = unat (hash_1 (table_size sc) k3) \<or> s1 = unat (hash_2 (table_size sc) k3)"
    "s2 = unat (hash_1 (table_size sc) k3) \<or> s2 = unat (hash_2 (table_size sc) k3)"
    "s3 = unat (hash_1 (table_size sc) k3) \<or> s3 = unat (hash_2 (table_size sc) k3)"
    by (auto simp: es h1 h2)
  then show False by auto
qed

lemma colliding_keys_never_inserted:
  assumes new: "small_cuckoo_new e0 initial_size = Inr sc0"
    and h1: "\<And>n. hash_1 n k1 = hash_1 n k2" "\<And>n. hash_1 n k2 = hash_1 n k3"
    and h2: "\<And>n. hash_2 n k1 = hash_2 n k2" "\<And>n. hash_2 n k2 = hash_2 n k3"
  shows "insert_all fuel sc0 [(k1, v1), (k2, v2), (k3, v3)] \<noteq> Some (Inr sc)"
proof
  assume run: "insert_all fuel sc0 [(k1, v1), (k2, v2), (k3, v3)] = Some (Inr sc)"
  from small_cuckoo_new_inv [OF new] have "table_inv sc0" "entries sc0 = [e0]"
    by simp_all
  with insert_all_inv [OF run] have "table_inv sc" "entries sc = [e0, (k1, v1), (k2, v2), (k3, v3)]"
    by simp_all
  then show False
    using h1 h2 by (rule no_table_for_three)
qed

lemma collide_1:
  "hash_1 n 0xc39eb74f179f3600 = hash_1 n 0x9da6bdf3709ee000"
  "hash_1 n 0x9da6bdf3709ee000 = hash_1 n 0xb2e8e80f5e955101"
  by (simp_all add: hash_eval cong: eval_cong)

lemma collide_2:
  "hash_2 n 0xc39eb74f179f3600 = hash_2 n 0x9da6bdf3709ee000"
  "hash_2 n 0x9da6bdf3709ee000 = hash_2 n 0xb2e8e80f5e955101"
  by (simp_all add: hash_eval cong: eval_cong)

lemma new_0:
  "small_cuckoo_new (0, 0) 0 =
     Inr \<lparr>table_size = 2, table = [0, 0], n_entries = 1, entries_len = 1, entries = [(0, 0)]\<rparr>"
  by (simp add: table_eval cong: eval_cong)

text \<open>
  Against C1 as stated: three distinct keys with the same Larson hash and the same
  Jenkins hash have the same two candidate slots at every table size, so no table holds
  all three, and the third insertion never returns a table.
\<close>

theorem find_after_inserts_counterexample:
  "distinct (map fst [(0xc39eb74f179f3600 :: u64, 1 :: u64), (0x9da6bdf3709ee000, 2),
                      (0xb2e8e80f5e955101, 3)])
   \<and> small_cuckoo_new (0, 0) 0 =
       Inr \<lparr>table_size = 2, table = [0, 0], n_entries = 1, entries_len = 1, entries = [(0, 0)]\<rparr>
   \<and> (\<forall>fuel. \<not> (\<exists>sc.
         insert_all fuel
           \<lparr>table_size = 2, table = [0, 0], n_entries = 1, entries_len = 1, entries = [(0, 0)]\<rparr>
           [(0xc39eb74f179f3600, 1), (0x9da6bdf3709ee000, 2), (0xb2e8e80f5e955101, 3)]
         = Some (Inr sc)))"
  using colliding_keys_never_inserted [OF new_0 collide_1 collide_2] new_0
  by simp

section \<open>The serialized stream\<close>

lemma length_le_bytes [simp]: "length (le_bytes n u) = n"
  by (simp add: le_bytes_def)

lemma length_WRITE_UNDER_8 [simp]: "length (WRITE_UNDER after x 8) = 8"
  by (simp add: WRITE_UNDER_def)

lemma WRITE_UNDER_8: "WRITE_UNDER after x 8 = le_bytes 4 (ucast x) @ le_bytes 4 after"
  by (simp add: WRITE_UNDER_def)

lemma le_bytes_4: "le_bytes 4 u = [ucast u, ucast (drop_bit 8 u), ucast (drop_bit 16 u), ucast (drop_bit 24 u)]"
proof -
  have "[0..<4] = [0, 1, 2, 3]" by (simp add: upt_rec)
  then show ?thesis by (simp add: le_bytes_def)
qed

lemma WRITE_UNDER_count:
  "WRITE_UNDER after (ucast (n :: u16)) 2 = [ucast n, ucast (drop_bit 8 n)]"
proof -
  have a: "(ucast (ucast (ucast n :: u64) :: u32) :: u8) = ucast n"
    by (rule bit_word_eqI) (auto simp: bit_ucast_iff)
  have b: "(ucast (drop_bit 8 (ucast (ucast n :: u64) :: u32)) :: u8) = ucast (drop_bit 8 n)"
    by (rule bit_word_eqI) (auto simp: bit_ucast_iff bit_drop_bit_eq)
  show ?thesis
    by (simp add: WRITE_UNDER_def le_bytes_4 a b)
qed

lemma concat_blocks:
  assumes "\<And>j. j < n \<Longrightarrow> length (f j) = m" and "i < n"
  shows "take m (drop (m * i) (concat (map f [0..<n]))) = f i"
  using assms
proof (induction n)
  case 0
  then show ?case by simp
next
  case (Suc n)
  have len: "length (concat (map f [0..<n])) = m * n"
    using Suc.prems(1) by (induction n) simp_all
  show ?case
  proof (cases "i < n")
    case True
    then have "m * Suc i \<le> m * n"
      by (intro mult_le_mono2) simp
    then have "m * i + m \<le> m * n" by simp
    with len True Suc show ?thesis by simp
  next
    case False
    with Suc.prems(2) have "i = n" by simp
    with len Suc.prems(1) [of n] show ?thesis by simp
  qed
qed

lemma length_concat_blocks:
  assumes "\<And>j. j < n \<Longrightarrow> length (f j) = m"
  shows "length (concat (map f [0..<n])) = m * n"
  using assms by (induction n) simp_all

text \<open>
  C3, amended. Serializing a table writes the entry count \<open>n_entries\<close>, which counts
  the sentinel entry 0, as 2 little-endian bytes, followed by one 16-byte record (an
  8-byte key field, then an 8-byte value field) for every entry index below
  \<open>n_entries\<close> in storage order, the sentinel included: \<open>2 + 16 * n_entries\<close> bytes, 34
  for a table holding one pair. The first four bytes of each field are the low 32 bits
  of the key or value, little-endian.
\<close>

theorem serialize_layout:
  assumes "small_cuckoo_serialize stack sc = Inr bs"
  shows "length bs = 2 + 16 * unat (n_entries sc)
       \<and> take 2 bs = [ucast (n_entries sc), ucast (drop_bit 8 (n_entries sc))]
       \<and> (\<forall>i < unat (n_entries sc).
            take 4 (drop (2 + 16 * i) bs) = le_bytes 4 (ucast (fst (entries sc ! i))) \<and>
            take 4 (drop (2 + 16 * i + 8) bs) = le_bytes 4 (ucast (snd (entries sc ! i))))"
proof -
  let ?n = "unat (n_entries sc)"
  let ?rec = "\<lambda>i. WRITE_UNDER (stack (2 * i + 1)) (fst (entries sc ! i)) 8 @
                   WRITE_UNDER (stack (2 * i + 2)) (snd (entries sc ! i)) 8"
  let ?body = "concat (map ?rec [0..<?n])"
  from assms have bs: "bs = [ucast (n_entries sc), ucast (drop_bit 8 (n_entries sc))] @ ?body"
    by (simp add: small_cuckoo_serialize_def WRITE_UNDER_count split: if_splits)
  have len_rec: "length (?rec j) = 16" for j by simp
  have len: "length ?body = 16 * ?n"
    by (rule length_concat_blocks) (rule len_rec)
  have rec: "take 16 (drop (16 * i) ?body) = ?rec i" if "i < ?n" for i
    by (rule concat_blocks [OF len_rec that])
  have shift: "drop (2 + k) bs = drop k ?body" for k
    by (simp add: bs numeral_2_eq_2)
  have fields: "take 4 (drop (2 + 16 * i) bs) = le_bytes 4 (ucast (fst (entries sc ! i))) \<and>
            take 4 (drop (2 + 16 * i + 8) bs) = le_bytes 4 (ucast (snd (entries sc ! i)))"
    if i: "i < ?n" for i
  proof -
    have "take 4 (drop (16 * i) ?body) = take 4 (take 16 (drop (16 * i) ?body))"
      by simp
    also have "\<dots> = le_bytes 4 (ucast (fst (entries sc ! i)))"
      by (simp only: rec [OF i]) (simp add: WRITE_UNDER_8)
    finally have k: "take 4 (drop (2 + 16 * i) bs) = le_bytes 4 (ucast (fst (entries sc ! i)))"
      by (simp only: shift)
    have "take 4 (drop (16 * i + 8) ?body) = take 4 (drop 8 (take 16 (drop (16 * i) ?body)))"
      by (simp add: drop_take add.commute)
    also have "\<dots> = le_bytes 4 (ucast (snd (entries sc ! i)))"
      by (simp only: rec [OF i]) (simp add: WRITE_UNDER_8)
    finally have "take 4 (drop (2 + 16 * i + 8) bs) = le_bytes 4 (ucast (snd (entries sc ! i)))"
      by (simp only: shift add.assoc)
    with k show ?thesis by simp
  qed
  from bs len fields show ?thesis by simp
qed

section \<open>Concrete runs\<close>

lemma insert_42:
  "insert_all 1
     \<lparr>table_size = 2, table = [0, 0], n_entries = 1, entries_len = 1, entries = [(0, 0)]\<rparr>
     [(42, 100)] =
   Some (Inr \<lparr>table_size = 2, table = [1, 0], n_entries = 2, entries_len = 2,
               entries = [(0, 0), (42, 100)]\<rparr>)"
  by (simp add: table_eval hash_size_2 cong: eval_cong)

theorem find_after_inserts_witness:
  "small_cuckoo_new (0, 0) 0 =
     Inr \<lparr>table_size = 2, table = [0, 0], n_entries = 1, entries_len = 1, entries = [(0, 0)]\<rparr>
   \<and> insert_all 1
        \<lparr>table_size = 2, table = [0, 0], n_entries = 1, entries_len = 1, entries = [(0, 0)]\<rparr>
        [(42, 100)] =
      Some (Inr \<lparr>table_size = 2, table = [1, 0], n_entries = 2, entries_len = 2,
                  entries = [(0, 0), (42, 100)]\<rparr>)
   \<and> distinct (map fst [(42 :: u64, 100 :: u64)])
   \<and> (42, 100) \<in> set [(42 :: u64, 100 :: u64)]
   \<and> small_cuckoo_find
        \<lparr>table_size = 2, table = [1, 0], n_entries = 2, entries_len = 2,
           entries = [(0, 0), (42, 100)]\<rparr> 42 = Inr (Some 100)"
proof -
  have d: "distinct (map fst [(42 :: u64, 100 :: u64)])" by simp
  have m: "(42, 100) \<in> set [(42 :: u64, 100 :: u64)]" by simp
  from find_after_inserts [OF new_0 insert_42 d m] new_0 insert_42 d m
  show ?thesis by (intro conjI)
qed



lemma insert_7_first_two:
  "insert_all 1
     \<lparr>table_size = 2, table = [0, 0], n_entries = 1, entries_len = 1, entries = [(0, 0)]\<rparr>
     [(7, 1), (7, 2)] =
   Some (Inr \<lparr>table_size = 2, table = [2, 1], n_entries = 3, entries_len = 4,
               entries = [(0, 0), (7, 1), (7, 2)]\<rparr>)"
  by (simp add: table_eval hash_size_2 cong: eval_cong)

lemma third_insert_never_returns:
  "small_cuckoo_insert fuel
     \<lparr>table_size = 2, table = [2, 1], n_entries = 3, entries_len = 4,
        entries = [(0, 0), (7, 1), (7, 2)]\<rparr> 7 3 \<noteq> Some (Inr sc)"
proof
  let ?sc2 = "\<lparr>table_size = 2, table = [2, 1], n_entries = 3, entries_len = 4,
        entries = [(0 :: u64, 0 :: u64), (7, 1), (7, 2)]\<rparr>"
  assume run: "small_cuckoo_insert fuel ?sc2 7 3 = Some (Inr sc)"
  from small_cuckoo_new_inv [OF new_0] have "table_inv ?sc2"
    using insert_all_inv [OF insert_7_first_two] by simp
  from small_cuckoo_insert_inv [OF run this]
  have "table_inv sc" "entries sc = [(0, 0), (7, 1), (7, 2), (7, 3)]"
    by simp_all
  then show False
    by (rule no_table_for_three) simp_all
qed

theorem serialize_layout_witness:
  "small_cuckoo_serialize (\<lambda>w. 0)
     \<lparr>table_size = 2, table = [1, 0], n_entries = 2, entries_len = 2,
        entries = [(0, 0), (42, 100)]\<rparr> =
   Inr [2, 0,
        0, 0, 0, 0, 0, 0, 0, 0, 0, 0, 0, 0, 0, 0, 0, 0,
        42, 0, 0, 0, 0, 0, 0, 0, 100, 0, 0, 0, 0, 0, 0, 0]
   \<and> length [2, 0,
        0, 0, 0, 0, 0, 0, 0, 0, 0, 0, 0, 0, 0, 0, 0, 0,
        42, 0, 0, 0, 0, 0, 0, 0, 100, 0, 0, 0, 0, 0, 0, 0 :: u8] = 2 + 16 * unat (2 :: u16)"
proof -
  have ser: "small_cuckoo_serialize (\<lambda>w. 0)
     \<lparr>table_size = 2, table = [1, 0], n_entries = 2, entries_len = 2,
        entries = [(0, 0), (42, 100)]\<rparr> =
   Inr [2, 0,
        0, 0, 0, 0, 0, 0, 0, 0, 0, 0, 0, 0, 0, 0, 0, 0,
        42, 0, 0, 0, 0, 0, 0, 0, 100, 0, 0, 0, 0, 0, 0, 0]"
    by (simp add: small_cuckoo_serialize_def WRITE_UNDER_def le_bytes_4 upt_rec)
  from serialize_layout [OF ser] ser show ?thesis by simp
qed

theorem serialize_layout_counterexample:
  "insert_all 1
     \<lparr>table_size = 2, table = [0, 0], n_entries = 1, entries_len = 1, entries = [(0, 0)]\<rparr>
     [(42, 100)] =
   Some (Inr \<lparr>table_size = 2, table = [1, 0], n_entries = 2, entries_len = 2,
               entries = [(0, 0), (42, 100)]\<rparr>)
   \<and> (\<forall>stack. \<exists>bs.
         small_cuckoo_serialize stack
           \<lparr>table_size = 2, table = [1, 0], n_entries = 2, entries_len = 2,
              entries = [(0, 0), (42, 100)]\<rparr> = Inr bs
         \<and> length bs = 34 \<and> length bs \<noteq> 18)"
proof -
  have "\<exists>bs. small_cuckoo_serialize stack
           \<lparr>table_size = 2, table = [1, 0], n_entries = 2, entries_len = 2,
              entries = [(0, 0), (42, 100)]\<rparr> = Inr bs
         \<and> length bs = 34 \<and> length bs \<noteq> 18" for stack
    by (simp add: small_cuckoo_serialize_def WRITE_UNDER_def le_bytes_4 upt_rec)
  with insert_42 show ?thesis by blast
qed

lemma hash_key_7:
  "hash_1 4 7 = 2" "hash_2 4 7 = 1" "hash_1 8 7 = 6" "hash_2 8 7 = 5"
  "hash_1 16 7 = 6" "hash_2 16 7 = 5"
  by (simp_all add: hash_eval cong: eval_cong)

lemma third_insert_running:
  "small_cuckoo_insert 4
     \<lparr>table_size = 2, table = [2, 1], n_entries = 3, entries_len = 4,
        entries = [(0, 0), (7, 1), (7, 2)]\<rparr> 7 3 = None"
  by (simp add: table_eval hash_size_2 hash_key_7 cong: eval_cong)

text \<open>
  Against C5 as stated: the same key inserted a third time. The rounds fail at every
  table size, so every growth is followed by another; the call is still running at
  depth 4, and at no depth does it return a table.
\<close>

theorem growth_after_failed_rounds_counterexample:
  "insert_all 1
     \<lparr>table_size = 2, table = [0, 0], n_entries = 1, entries_len = 1, entries = [(0, 0)]\<rparr>
     [(7, 1), (7, 2)] =
   Some (Inr \<lparr>table_size = 2, table = [2, 1], n_entries = 3, entries_len = 4,
               entries = [(0, 0), (7, 1), (7, 2)]\<rparr>)
   \<and> small_cuckoo_insert 4
        \<lparr>table_size = 2, table = [2, 1], n_entries = 3, entries_len = 4,
           entries = [(0, 0), (7, 1), (7, 2)]\<rparr> 7 3 = None
   \<and> (\<forall>fuel. \<not> (\<exists>sc.
         small_cuckoo_insert fuel
           \<lparr>table_size = 2, table = [2, 1], n_entries = 3, entries_len = 4,
              entries = [(0, 0), (7, 1), (7, 2)]\<rparr> 7 3 = Some (Inr sc)))"
  using insert_7_first_two third_insert_running third_insert_never_returns
  by simp



section \<open>The capacity of the entry array\<close>

lemma small_cuckoo_insert_counts:
  assumes "small_cuckoo_insert fuel sc key val = Some (Inr sc')"
  shows "n_entries sc' = n_entries sc + 1
       \<and> entries_len sc' =
           (if entries_len sc \<le> n_entries sc + 1 then push_bit 1 (entries_len sc)
            else entries_len sc)
       \<and> unat (n_entries sc) < unat (entries_len sc')"
proof -
  let ?len = "if entries_len sc \<le> n_entries sc + 1 then push_bit 1 (entries_len sc)
              else entries_len sc"
  from assms obtain es where
    lt: "unat (n_entries sc) < unat ?len" and
    run: "insert_index fuel (sc\<lparr>n_entries := n_entries sc + 1, entries_len := ?len,
                                  entries := es\<rparr>) (n_entries sc) = Some (Inr sc')"
    by (auto simp: small_cuckoo_insert_def Let_def split: if_splits sum.splits)
  from insert_index_frame [OF run] lt show ?thesis
    by (simp add: frame_def same_store_def)
qed

lemma unat_double:
  assumes "unat (w :: u16) = 2 ^ k" "k \<le> 15"
  shows "unat (push_bit 1 w) = (if k = 15 then 0 else 2 ^ Suc k)"
proof -
  have "unat (push_bit 1 w) = (2 * unat w) mod 2 ^ 16"
    by (simp add: push_bit_eq_mult unat_word_ariths mult.commute)
  also have "\<dots> = (2 ^ Suc k) mod 2 ^ 16"
    by (simp add: assms(1))
  also have "\<dots> = (if k = 15 then 0 else 2 ^ Suc k)"
  proof (cases "k = 15")
    case True
    then show ?thesis by simp
  next
    case False
    with assms(2) have "Suc k < 16" by simp
    then have "(2 :: nat) ^ Suc k < 2 ^ 16"
      by (rule power_strict_increasing) simp
    with False show ?thesis by simp
  qed
  finally show ?thesis .
qed

lemma small_cuckoo_insert_cap:
  assumes run: "small_cuckoo_insert fuel sc key val = Some (Inr sc')" and inv: "cap_inv sc"
  shows "cap_inv sc' \<and> unat (n_entries sc') = Suc (unat (n_entries sc))"
proof -
  from inv obtain k where k: "k \<le> 15" "unat (entries_len sc) = 2 ^ k"
    "unat (n_entries sc) \<le> 2 ^ k" "2 ^ k \<le> 2 * unat (n_entries sc)"
    by (auto simp: cap_inv_def)
  note c = small_cuckoo_insert_counts [OF run]
  then have suc: "unat (n_entries sc + 1) = Suc (unat (n_entries sc))"
    by (auto intro: unat_succ)
  with c have n': "unat (n_entries sc') = Suc (unat (n_entries sc))" by simp
  show ?thesis
  proof (cases "entries_len sc \<le> n_entries sc + 1")
    case True
    then have ge: "2 ^ k \<le> Suc (unat (n_entries sc))"
      by (simp add: word_le_nat_alt suc k(2))
    from True c have len': "entries_len sc' = push_bit 1 (entries_len sc)" by simp
    from c have "unat (n_entries sc) < unat (entries_len sc')" by blast
    then have pos: "0 < unat (entries_len sc')" by linarith
    with len' unat_double [OF k(2,1)] have "k \<noteq> 15" and l: "unat (entries_len sc') = 2 ^ Suc k"
      by (auto split: if_splits)
    with k(1) have "Suc k \<le> 15" by simp
    moreover from k(3) have "Suc (unat (n_entries sc)) \<le> 2 ^ Suc k"
      using c l by simp
    moreover from ge have "2 ^ Suc k \<le> 2 * Suc (unat (n_entries sc))" by simp
    ultimately have "cap_inv sc'"
      unfolding cap_inv_def n' l by blast
    with n' show ?thesis by simp
  next
    case False
    with c have len': "entries_len sc' = entries_len sc" by simp
    from False have "Suc (unat (n_entries sc)) < 2 ^ k"
      by (simp add: word_le_nat_alt suc k(2))
    with k len' n' have "cap_inv sc'"
      unfolding cap_inv_def by (intro exI [of _ k]) simp
    with n' show ?thesis by simp
  qed
qed

lemma insert_all_cap:
  "insert_all fuel sc kvs = Some (Inr sc') \<Longrightarrow> cap_inv sc \<Longrightarrow>
   cap_inv sc' \<and> unat (n_entries sc') = unat (n_entries sc) + length kvs"
proof (induction kvs arbitrary: sc)
  case Nil
  then show ?case by simp
next
  case (Cons kv kvs)
  from Cons.prems(1) obtain sc1 where
    one: "small_cuckoo_insert fuel sc (fst kv) (snd kv) = Some (Inr sc1)" and
    rest: "insert_all fuel sc1 kvs = Some (Inr sc')"
    by (auto split: option.splits sum.splits)
  from small_cuckoo_insert_cap [OF one Cons.prems(2)] Cons.IH [OF rest] show ?case
    by simp
qed

lemma cap_inv_full:
  assumes "cap_inv sc" "unat (n_entries sc) = 32767"
  shows "unat (entries_len sc) = 32768"
proof -
  from assms obtain k where k: "k \<le> 15" "unat (entries_len sc) = 2 ^ k"
    "32767 \<le> (2 :: nat) ^ k"
    by (auto simp: cap_inv_def)
  have "k = 15"
  proof (rule ccontr)
    assume "k \<noteq> 15"
    with k(1) have "k \<le> 14" by simp
    then have "(2 :: nat) ^ k \<le> 2 ^ 14"
      by (rule power_increasing) simp
    with k(3) show False by simp
  qed
  with k(2) show ?thesis by simp
qed

lemma insert_at_32767_aborts:
  assumes "cap_inv sc" "unat (n_entries sc) = 32767"
  shows "small_cuckoo_insert fuel sc key val = Some (Inl Abort)"
proof -
  from cap_inv_full [OF assms] have len: "entries_len sc = 32768"
    by (simp add: word_unat_eq_iff)
  from assms(2) have n: "n_entries sc = 32767"
    by (simp add: word_unat_eq_iff)
  show ?thesis
    by (simp add: small_cuckoo_insert_def Let_def len n)
qed

lemma insert_all_append:
  "insert_all fuel sc (xs @ ys) =
     (case insert_all fuel sc xs of
        None \<Rightarrow> None
      | Some (Inl e) \<Rightarrow> Some (Inl e)
      | Some (Inr sc') \<Rightarrow> insert_all fuel sc' ys)"
  by (induction xs arbitrary: sc) (auto split: option.splits sum.splits)

lemma insert_at_65535:
  assumes "n_entries sc = 65535" "entries_len sc \<noteq> 0"
  shows "small_cuckoo_insert fuel sc key val = Some (Inl OutOfBounds)"
proof -
  have wrap: "n_entries sc + 1 = 0"
    using assms(1) by simp
  have no_grow: "\<not> entries_len sc \<le> n_entries sc + 1"
    using assms(2) by (simp add: wrap)
  have pos: "0 < n_entries sc"
    using assms(1) by simp
  have "unat (entries_len sc) < 65536"
    using unsigned_less [of "entries_len sc", where 'a = nat] by simp
  then have beyond: "\<not> unat (n_entries sc) < unat (entries_len sc)"
    using assms(1) by simp
  show ?thesis
    unfolding small_cuckoo_insert_def Let_def
    using no_grow pos beyond by simp
qed

text \<open>
  C8 at the failing input. A table made by \<open>small_cuckoo_new(0)\<close> does not take 32767
  insertions, whatever the keys: when the first 32766 have returned, \<open>entries_len\<close> is
  32768, the next insertion doubles it to 0 in 16 bits, and \<open>realloc\<close> of size 0 fails the
  \<open>ENSURE\<close>.
\<close>

theorem capacity_of_new_0:
  assumes new: "small_cuckoo_new e0 0 = Inr sc0" and len: "length kvs = 32767"
  shows "insert_all fuel sc0 kvs \<noteq> Some (Inr sc)
       \<and> (\<forall>sc1. insert_all fuel sc0 (butlast kvs) = Some (Inr sc1) \<longrightarrow>
             insert_all fuel sc0 kvs = Some (Inl Abort))"
proof -
  from new have sc0: "n_entries sc0 = 1" "entries_len sc0 = 1"
    by (auto simp: small_cuckoo_new_def shift_one_def split: sum.splits if_splits)
  then have inv0: "cap_inv sc0"
    unfolding cap_inv_def by (intro exI [of _ 0]) simp
  from len have kvs: "kvs = butlast kvs @ [last kvs]" and bl: "length (butlast kvs) = 32766"
    by (cases kvs rule: rev_cases; simp)+
  have abort: "insert_all fuel sc0 kvs = Some (Inl Abort)"
    if run: "insert_all fuel sc0 (butlast kvs) = Some (Inr sc1)" for sc1
  proof -
    from insert_all_cap [OF run inv0] sc0 bl
    have "cap_inv sc1" "unat (n_entries sc1) = 32767" by simp_all
    then have "small_cuckoo_insert fuel sc1 (fst (last kvs)) (snd (last kvs)) = Some (Inl Abort)"
      by (rule insert_at_32767_aborts)
    with run show ?thesis
      by (subst kvs) (simp add: insert_all_append)
  qed
  have "insert_all fuel sc0 kvs \<noteq> Some (Inr sc)"
  proof
    assume ok: "insert_all fuel sc0 kvs = Some (Inr sc)"
    then obtain sc1 where "insert_all fuel sc0 (butlast kvs) = Some (Inr sc1)"
      by (subst (asm) kvs) (auto simp: insert_all_append split: option.splits sum.splits)
    from abort [OF this] ok show False by simp
  qed
  with abort show ?thesis by blast
qed

theorem capacity_of_new_0_witness:
  "small_cuckoo_new (0, 0) 0 =
     Inr \<lparr>table_size = 2, table = [0, 0], n_entries = 1, entries_len = 1, entries = [(0, 0)]\<rparr>
   \<and> length (map (\<lambda>j. (of_nat j :: u64, 0 :: u64)) [0..<32767]) = 32767
   \<and> (\<forall>fuel. \<not> (\<exists>sc.
         insert_all fuel
           \<lparr>table_size = 2, table = [0, 0], n_entries = 1, entries_len = 1, entries = [(0, 0)]\<rparr>
           (map (\<lambda>j. (of_nat j, 0)) [0..<32767]) = Some (Inr sc)))"
proof -
  have len: "length (map (\<lambda>j. (of_nat j :: u64, 0 :: u64)) [0..<32767]) = 32767"
    by simp
  from capacity_of_new_0 [OF new_0 len] new_0 len show ?thesis
    by blast
qed

section \<open>Deserialization\<close>

lemma read_entries_numeral:
  "read_entries (numeral k) fd =
    (case READ_AND 8 fd of
       Inl e \<Rightarrow> Inl e
     | Inr (k1, fd1) \<Rightarrow>
         (case READ_AND 8 fd1 of
            Inl e \<Rightarrow> Inl e
          | Inr (v, fd2) \<Rightarrow>
              (case read_entries (pred_numeral k) fd2 of
                 Inl e \<Rightarrow> Inl e
               | Inr (es, fd3) \<Rightarrow> Inr ((ucast k1, ucast v) # es, fd3))))"
  by (simp add: numeral_eq_Suc)

lemmas codec_eval =
  small_cuckoo_serialize_def WRITE_UNDER_def le_bytes_4 upt_rec
  small_cuckoo_deserialize_def deserialize_read_def READ_AND_def of_le_bytes_def
  read_entries_numeral shift_one_def ceil_pow2_def

lemma hash_size_8:
  "hash_1 8 0 = 6" "hash_2 8 0 = 1" "hash_1 8 42 = 4" "hash_2 8 42 = 5"
  "hash_1 8 4294967296 = 0" "hash_2 8 4294967296 = 1"
  by (simp_all add: hash_eval cong: eval_cong)

lemma read_with_garbage: "deserialize_read (\<lambda>j. if j = 4 then 9 else 0)
     [2, 0,
      0, 0, 0, 0, 0, 0, 0, 0, 0, 0, 0, 0, 0, 0, 0, 0,
      42, 0, 0, 0, 0, 0, 0, 0, 100, 0, 0, 0, 0, 0, 0, 0] =
   Inr \<lparr>table_size = 8, table = [0, 0, 0, 0, 9, 0, 0, 0], n_entries = 2, entries_len = 0,
         entries = [(0, 0), (42, 100)]\<rparr>"
  by (simp add: codec_eval cong: eval_cong)

lemma reinsert_with_garbage: "small_cuckoo_deserialize 1 (\<lambda>j. if j = 4 then 9 else 0)
     [2, 0,
      0, 0, 0, 0, 0, 0, 0, 0, 0, 0, 0, 0, 0, 0, 0, 0,
      42, 0, 0, 0, 0, 0, 0, 0, 100, 0, 0, 0, 0, 0, 0, 0] = Some (Inl OutOfBounds)"
  by (simp add: codec_eval table_eval hash_size_8 cong: eval_cong)

lemma deserialize_with_garbage: "small_cuckoo_deserialize 1 (\<lambda>j. if j = 7 then 7 else 0)
     [2, 0,
      0, 0, 0, 0, 0, 0, 0, 0, 0, 0, 0, 0, 0, 0, 0, 0,
      42, 0, 0, 0, 0, 0, 0, 0, 100, 0, 0, 0, 0, 0, 0, 0] =
   Some (Inr \<lparr>table_size = 8, table = [0, 0, 0, 0, 1, 0, 0, 7], n_entries = 2,
          entries_len = 0, entries = [(0, 0), (42, 100)]\<rparr>)"
  by (simp add: codec_eval table_eval hash_size_8 cong: eval_cong)

lemma garbage_slot_not_ok: "\<not> slots_ok \<lparr>table_size = 8, table = [0, 0, 0, 0, 1, 0, 0, 7], n_entries = 2,
          entries_len = 0, entries = [(0, 0), (42, 100)]\<rparr>"
  by (simp add: slots_ok_def slot_ok_def upt_rec)

lemma insert_4294967296:
  "insert_all 1
     \<lparr>table_size = 2, table = [0, 0], n_entries = 1, entries_len = 1, entries = [(0, 0)]\<rparr>
     [(4294967296, 1)] =
   Some (Inr \<lparr>table_size = 2, table = [1, 0], n_entries = 2, entries_len = 2,
               entries = [(0, 0), (4294967296, 1)]\<rparr>)"
  by (simp add: table_eval hash_size_2 cong: eval_cong)

lemma find_before:
  "small_cuckoo_find \<lparr>table_size = 2, table = [1, 0], n_entries = 2, entries_len = 2,
               entries = [(0, 0), (4294967296, 1)]\<rparr> 4294967296 = Inr (Some 1)"
  by (simp add: table_eval hash_size_2 cong: eval_cong)

lemma round_trip_bytes:
  "\<exists>bs. small_cuckoo_serialize stack
           \<lparr>table_size = 2, table = [1, 0], n_entries = 2, entries_len = 2,
              entries = [(0, 0), (4294967296, 1)]\<rparr> = Inr bs
       \<and> small_cuckoo_deserialize 1 (\<lambda>j. 0) bs =
           Some (Inr \<lparr>table_size = 8, table = [0, 0, 0, 0, 0, 0, 1, 0], n_entries = 2,
                       entries_len = 0, entries = [(0, 0), (0, 1)]\<rparr>)"
  by (simp add: codec_eval table_eval hash_size_8 cong: eval_cong)

lemma find_after:
  "small_cuckoo_find \<lparr>table_size = 8, table = [0, 0, 0, 0, 0, 0, 1, 0], n_entries = 2,
                       entries_len = 0, entries = [(0, 0), (0, 1)]\<rparr> 4294967296 = Inr None"
  by (simp add: table_eval hash_size_8 cong: eval_cong)

text \<open>
  C2 at the failing input. A table holding the pair \<open>(2 ^ 32, 1)\<close> finds its key.
  \<open>WRITE_UNDER\<close> keeps 32 bits of the key, and \<open>READ_AND\<close> reads 32 bits back: whatever
  lies behind \<open>u\<close> on the stack, and with the allocator handing out zeroed memory, the
  deserialized table holds the pair \<open>(0, 1)\<close> and does not find \<open>2 ^ 32\<close>.
\<close>

theorem round_trip_truncates_key:
  "insert_all 1
     \<lparr>table_size = 2, table = [0, 0], n_entries = 1, entries_len = 1, entries = [(0, 0)]\<rparr>
     [(4294967296, 1)] =
   Some (Inr \<lparr>table_size = 2, table = [1, 0], n_entries = 2, entries_len = 2,
               entries = [(0, 0), (4294967296, 1)]\<rparr>)
   \<and> small_cuckoo_find \<lparr>table_size = 2, table = [1, 0], n_entries = 2, entries_len = 2,
               entries = [(0, 0), (4294967296, 1)]\<rparr> 4294967296 = Inr (Some 1)
   \<and> (\<forall>stack. \<exists>bs. small_cuckoo_serialize stack
           \<lparr>table_size = 2, table = [1, 0], n_entries = 2, entries_len = 2,
              entries = [(0, 0), (4294967296, 1)]\<rparr> = Inr bs
       \<and> small_cuckoo_deserialize 1 (\<lambda>j. 0) bs =
           Some (Inr \<lparr>table_size = 8, table = [0, 0, 0, 0, 0, 0, 1, 0], n_entries = 2,
                       entries_len = 0, entries = [(0, 0), (0, 1)]\<rparr>))
   \<and> small_cuckoo_find \<lparr>table_size = 8, table = [0, 0, 0, 0, 0, 0, 1, 0], n_entries = 2,
                       entries_len = 0, entries = [(0, 0), (0, 1)]\<rparr> 4294967296 = Inr None"
  using insert_4294967296 find_before round_trip_bytes find_after by blast


lemma deserialize_read_table:
  "deserialize_read heap fd = Inr sc \<Longrightarrow> table sc = map heap [0..<table_size sc]"
  by (auto simp: deserialize_read_def Let_def split: sum.splits prod.splits)

text \<open>
  C4 at the failing input. The slot table is what \<open>malloc\<close> returns, and nothing clears
  it: with a 9 left in cell 4, the table handed to the first reinsertion holds that 9,
  and reinserting entry 1 evicts it and reads entry 9 of a two-entry array.
\<close>

theorem deserialize_table_not_zeroed:
  "deserialize_read (\<lambda>j. if j = 4 then 9 else 0)
     [2, 0,
      0, 0, 0, 0, 0, 0, 0, 0, 0, 0, 0, 0, 0, 0, 0, 0,
      42, 0, 0, 0, 0, 0, 0, 0, 100, 0, 0, 0, 0, 0, 0, 0] =
   Inr \<lparr>table_size = 8, table = [0, 0, 0, 0, 9, 0, 0, 0], n_entries = 2, entries_len = 0,
         entries = [(0, 0), (42, 100)]\<rparr>
   \<and> small_cuckoo_deserialize 1 (\<lambda>j. if j = 4 then 9 else 0)
     [2, 0,
      0, 0, 0, 0, 0, 0, 0, 0, 0, 0, 0, 0, 0, 0, 0, 0,
      42, 0, 0, 0, 0, 0, 0, 0, 100, 0, 0, 0, 0, 0, 0, 0] = Some (Inl OutOfBounds)"
  using read_with_garbage reinsert_with_garbage by blast

text \<open>
  C6 at the failing input. With a 7 left by the allocator in cell 7, which no
  reinsertion touches, deserialization returns a table whose slot 7 holds the index 7
  while the table has two entries.
\<close>

theorem deserialize_leaves_invalid_slot:
  "small_cuckoo_deserialize 1 (\<lambda>j. if j = 7 then 7 else 0)
     [2, 0,
      0, 0, 0, 0, 0, 0, 0, 0, 0, 0, 0, 0, 0, 0, 0, 0,
      42, 0, 0, 0, 0, 0, 0, 0, 100, 0, 0, 0, 0, 0, 0, 0] =
   Some (Inr \<lparr>table_size = 8, table = [0, 0, 0, 0, 1, 0, 0, 7], n_entries = 2,
          entries_len = 0, entries = [(0, 0), (42, 100)]\<rparr>)
   \<and> \<not> slots_ok \<lparr>table_size = 8, table = [0, 0, 0, 0, 1, 0, 0, 7], n_entries = 2,
          entries_len = 0, entries = [(0, 0), (42, 100)]\<rparr>"
  using deserialize_with_garbage garbage_slot_not_ok by blast

section \<open>The iterator on a large table\<close>

lemma new_9:
  "small_cuckoo_new (0, 0) 9 =
     Inr \<lparr>table_size = 131072, table = replicate 131072 0, n_entries = 1, entries_len = 10,
           entries = [(0, 0)]\<rparr>"
  by (simp add: small_cuckoo_new_def shift_one_def ceil_pow2_def cong: eval_cong)

lemma hash_1_big: "hash_1 131072 42 = 23132"
  by (simp add: hash_eval cong: eval_cong)

lemma insert_into_big:
  "small_cuckoo_insert 1
     \<lparr>table_size = 131072, table = replicate 131072 0, n_entries = 1, entries_len = 10,
        entries = [(0, 0)]\<rparr> 42 100 =
   Some (Inr \<lparr>table_size = 131072, table = (replicate 131072 0)[23132 := 1], n_entries = 2,
               entries_len = 10, entries = [(0, 0), (42, 100)]\<rparr>)"
  by (simp add: small_cuckoo_insert_def store_entry_def X_def insert_loop_MAX_LOOPS Let_def
        hash_1_big cong: eval_cong)

lemma unat_u16_less: "unat (p :: u16) < 65536"
  using unsigned_less [of p, where 'a = nat] by simp

lemma has_next_found:
  assumes "65536 \<le> table_size sc" "length (table sc) = table_size sc"
    and "table sc ! unat p \<noteq> 0"
  shows "small_cuckoo_iter_has_next (iter_at sc p) = Some (Inr (True, iter_at sc p))"
  using assms unat_u16_less [of p]
  by (subst small_cuckoo_iter_has_next.simps) (simp add: iter_at_def)

lemma has_next_skip:
  assumes "65536 \<le> table_size sc" "length (table sc) = table_size sc"
    and "table sc ! unat p = 0"
  shows "small_cuckoo_iter_has_next (iter_at sc p) =
         small_cuckoo_iter_has_next (iter_at sc (p + 1))"
  using assms unat_u16_less [of p]
  by (subst small_cuckoo_iter_has_next.simps) (simp add: iter_at_def)

lemma has_next_reaches:
  assumes big: "65536 \<le> table_size sc" "length (table sc) = table_size sc"
  shows "table sc ! unat (p + of_nat d) \<noteq> 0 \<Longrightarrow>
         \<exists>q. small_cuckoo_iter_has_next (iter_at sc p) = Some (Inr (True, iter_at sc q))
            \<and> table sc ! unat q \<noteq> 0"
proof (induction d arbitrary: p)
  case 0
  then show ?case using has_next_found [OF big, of p] by auto
next
  case (Suc d)
  show ?case
  proof (cases "table sc ! unat p = 0")
    case False
    then show ?thesis using has_next_found [OF big, of p] by auto
  next
    case True
    from Suc.prems have "table sc ! unat (p + 1 + of_nat d) \<noteq> 0"
      by (simp add: add.assoc)
    from Suc.IH [OF this] has_next_skip [OF big True] show ?thesis by simp
  qed
qed

lemma has_next_never_false:
  assumes big: "65536 \<le> table_size sc" "length (table sc) = table_size sc"
    and occ: "s < 65536" "table sc ! s \<noteq> 0"
  shows "\<exists>q. small_cuckoo_iter_has_next (iter_at sc p) = Some (Inr (True, iter_at sc q))
            \<and> table sc ! unat q \<noteq> 0"
proof -
  define w :: u16 where "w = of_nat s"
  from occ(1) have "unat w = s" by (simp add: w_def unat_of_nat)
  moreover have "p + of_nat (unat (w - p)) = w" by simp
  ultimately have "table sc ! unat (p + of_nat (unat (w - p))) \<noteq> 0"
    using occ(2) by simp
  then show ?thesis by (rule has_next_reaches [OF big])
qed

lemma next_found:
  assumes "65536 \<le> table_size sc" "length (table sc) = table_size sc"
    and "table sc ! unat q \<noteq> 0" "unat (table sc ! unat q) < length (entries sc)"
  shows "small_cuckoo_iter_next (iter_at sc q) =
         Some (Inr (entries sc ! unat (table sc ! unat q), iter_at sc (q + 1)))"
  using assms unat_u16_less [of q]
  by (subst small_cuckoo_iter_next.simps) (simp add: iter_at_def Let_def)

lemma iter_collect_never_ends:
  assumes big: "65536 \<le> table_size sc" and wfsc: "well_formed sc"
    and occ: "occupants sc \<noteq> {}"
  shows "iter_collect fuel (iter_at sc p) = None"
proof -
  from wfsc have len: "length (table sc) = table_size sc"
    by (simp add: well_formed_def)
  from wfsc have ok: "slot_ok sc s" if "s < length (table sc)" for s
    using that by (auto simp: well_formed_def slots_ok_iff)
  from occ obtain x where "x \<in> set (table sc)" "x \<noteq> 0"
    by (auto simp: occupants_def)
  then obtain s where s: "s < length (table sc)" "table sc ! s \<noteq> 0"
    by (auto simp: in_set_conv_nth)
  with ok [OF s(1)] have "unat (hash_for s (table_size sc)
      (fst (entries sc ! unat (table sc ! s)))) = s"
    by (simp add: slot_ok_def)
  then have s_small: "s < 65536"
    using unat_u16_less [of "hash_for s (table_size sc) (fst (entries sc ! unat (table sc ! s)))"]
    by simp
  show ?thesis
  proof (induction fuel arbitrary: p)
    case 0
    show ?case by simp
  next
    case (Suc fuel)
    from has_next_never_false [OF big len s_small s(2), of p] obtain q where
      q: "small_cuckoo_iter_has_next (iter_at sc p) = Some (Inr (True, iter_at sc q))"
         "table sc ! unat q \<noteq> 0"
      by blast
    have "unat q < length (table sc)"
      using unat_u16_less [of q] big len by simp
    from ok [OF this] q(2) have "unat (table sc ! unat q) < length (entries sc)"
      by (simp add: slot_ok_def)
    from next_found [OF big len q(2) this] q(1) Suc.IH [of "q + 1"] show ?case
      by simp
  qed
qed

text \<open>
  C7 at the failing input. \<open>small_cuckoo_new(9)\<close> makes a table of 131072 slots. Once it
  holds a pair, \<open>has_next\<close> is true at every cursor position, because the 16-bit cursor
  wraps to 0 before it reaches the table size: a fresh iterator is never exhausted, and
  the loop \<open>while (has_next) next\<close> yields the same pair again and again.
\<close>

theorem iterator_never_exhausted:
  assumes new: "small_cuckoo_new e0 9 = Inr sc0"
    and ins: "small_cuckoo_insert fuel sc0 key val = Some (Inr sc)"
  shows "table_size sc0 = 131072 \<and> iter_collect n (small_cuckoo_iterate sc) = None"
proof -
  have "ceil_pow2 9 = 16"
    by (simp add: ceil_pow2_def)
  with new have size0: "table_size sc0 = 131072"
    by (auto simp: small_cuckoo_new_def shift_one_def split: sum.splits if_splits)
  from small_cuckoo_new_inv [OF new] have "table_inv sc0" by simp
  from small_cuckoo_insert_inv [OF ins this] have inv: "table_inv sc"
    and es: "entries sc = entries sc0 @ [(key, val)]"
    by simp_all
  from \<open>table_inv sc0\<close> have len0: "length (entries sc0) = unat (n_entries sc0)"
    by (simp add: table_inv_def)
  from small_cuckoo_insert_Inr [OF ins len0]
  have "frame (inserted_store sc0 key val) sc"
    by (auto intro: insert_index_frame)
  with size0 have big: "65536 \<le> table_size sc"
    by (simp add: frame_def inserted_store_def)
  from small_cuckoo_new_inv [OF new] es have "length (entries sc) = 2" by simp
  with inv have "unat (n_entries sc) = 2" and occ: "occupants sc = {j. 0 < j \<and> j < n_entries sc}"
    by (simp_all add: table_inv_def)
  then have "(1 :: u16) \<in> occupants sc"
    by (simp add: word_less_nat_alt)
  then have "occupants sc \<noteq> {}" by blast
  with inv big have "iter_collect n (iter_at sc 0) = None"
    by (intro iter_collect_never_ends) (simp_all add: table_inv_def)
  with size0 show ?thesis
    by (simp add: small_cuckoo_iterate_def iter_at_def)
qed

theorem iterator_never_exhausted_witness:
  "small_cuckoo_new (0, 0) 9 =
     Inr \<lparr>table_size = 131072, table = replicate 131072 0, n_entries = 1, entries_len = 10,
           entries = [(0, 0)]\<rparr>
   \<and> small_cuckoo_insert 1
        \<lparr>table_size = 131072, table = replicate 131072 0, n_entries = 1, entries_len = 10,
           entries = [(0, 0)]\<rparr> 42 100 =
      Some (Inr \<lparr>table_size = 131072, table = (replicate 131072 0)[23132 := 1],
                  n_entries = 2, entries_len = 10, entries = [(0, 0), (42, 100)]\<rparr>)
   \<and> (\<forall>n. iter_collect n
         (small_cuckoo_iterate
           \<lparr>table_size = 131072, table = (replicate 131072 0)[23132 := 1],
              n_entries = 2, entries_len = 10, entries = [(0, 0), (42, 100)]\<rparr>) = None)"
  using iterator_never_exhausted [OF new_9 insert_into_big] new_9 insert_into_big
  by blast

end
